theory Spec2Isabelle
  imports Main
begin

section \<open>Data model\<close>

text \<open>
  Go's \<open>error\<close> values. An error returned by an external collaborator is opaque
  (\<open>Error\<close>); \<open>Errorf\<close> is \<open>fmt.Errorf\<close> with the format's prefix and the error it
  wraps, \<open>ErrorNew\<close> an error built from a plain message.
\<close>

datatype error = Error string | ErrorNew string | Errorf string error

text \<open>
  A Go call returns, panics, or has not returned yet; the last outcome only arises for
  the concurrent summarizer, when the schedule it is run with ends too early.
\<close>

datatype 'a outcome = Returned 'a | Panicked | Pending

text \<open>The roles \<open>openai.ChatMessageRoleUser\<close> etc.\<close>

datatype role = RoleUser | RoleAssistant | RoleTool | RoleSystem

text \<open>\<open>openai.ToolCall\<close>: \<open>ID\<close>, \<open>Function.Name\<close>, \<open>Function.Arguments\<close>.\<close>

record ToolCall =
  tc_ID :: string
  tc_Name :: string
  tc_Arguments :: string

text \<open>\<open>openai.ChatCompletionMessage\<close>, with the fields the program reads or writes.\<close>

record ChatCompletionMessage =
  Role :: role
  Content :: string
  Name :: string
  ToolCallID :: string
  ToolCalls :: "ToolCall list"

definition mkMessage :: "role \<Rightarrow> string \<Rightarrow> ChatCompletionMessage" where
  "mkMessage r c = \<lparr>Role = r, Content = c, Name = [], ToolCallID = [], ToolCalls = []\<rparr>"

text \<open>\<open>llm.TemplateData\<close> (internal/llm/client.go).\<close>

record TemplateData =
  Date :: string
  Messages :: "ChatCompletionMessage list"
  ResearchBrief :: string
  RawResearchNote :: string
  CompressedResearchNotes :: "string list"

definition emptyTemplateData :: TemplateData where
  "emptyTemplateData =
     \<lparr>Date = [], Messages = [], ResearchBrief = [], RawResearchNote = [],
      CompressedResearchNotes = []\<rparr>"

record ClarifyWithUserOutputSchema =
  NeedClarification :: bool
  Question :: string
  Verification :: string

record SummarizedResearchOutputSchema =
  Summary :: string
  KeyExcerpts :: string

text \<open>What every \<open>Execute\<close> of a \<open>ChatSessionWorkflow\<close> returns: \<open>(any, bool, error)\<close>.\<close>

type_synonym exec_result = "string \<times> bool \<times> error option"

section \<open>External collaborators\<close>

text \<open>
  The goroutines of one summarization batch: the goroutine that fills the work channel,
  the workers (numbered from 0) and the caller, which collects the results.
\<close>

datatype actor = Feeder | Worker nat | Orchestrator

text \<open>
  The capabilities the program consumes and does not implement: the template engine,
  the clock, the completion services, the search service and the JSON decoder.
  Each is a function of the request the code sends it. A structured completion writes
  its answer into the caller's variable; \<open>summaryCompletion\<close> returns the error together
  with what that variable holds afterwards, because the summarizer reads the variable
  after a failed call too. \<open>scheduler\<close> is the Go runtime: the order in which the
  goroutines of a summarization batch take their steps, for the batch started when the
  research ledger is the given one.
\<close>

record env =
  templateParse :: "string \<Rightarrow> error option"
  templateExecute :: "string \<Rightarrow> TemplateData \<Rightarrow> error + string"
  timeNow :: string
  clarifyCompletion :: "string \<Rightarrow> error + ClarifyWithUserOutputSchema"
  briefCompletion :: "string \<Rightarrow> error + string"
  reportCompletion :: "string \<Rightarrow> error + string"
  summaryCompletion :: "string \<Rightarrow> error option \<times> SummarizedResearchOutputSchema"
  chatCompletion :: "ChatCompletionMessage list \<Rightarrow> error + ChatCompletionMessage list"
  searchExecute :: "string \<Rightarrow> error + string list"
  jsonReflection :: "string \<Rightarrow> error + string"
  scheduler :: "ChatCompletionMessage list \<Rightarrow> actor list"

section \<open>internal/llm/client.go\<close>

text \<open>\<open>PromptBuilder\<close>: parse the named template, then execute it on the data.\<close>

definition PromptBuilder :: "env \<Rightarrow> string \<Rightarrow> TemplateData \<Rightarrow> error + string" where
  "PromptBuilder E templateName data =
     (case templateParse E templateName of
        Some err \<Rightarrow> Inl (Errorf ''failed to parse template'' err)
      | None \<Rightarrow>
          (case templateExecute E templateName data of
             Inl err \<Rightarrow> Inl (Errorf ''failed to execute template'' err)
           | Inr s \<Rightarrow> Inr s))"

definition BuildConversationHistory ::
  "string \<Rightarrow> ChatCompletionMessage list \<Rightarrow> ChatCompletionMessage list" where
  "BuildConversationHistory systemPrompt pastMessages =
     (if systemPrompt \<noteq> [] then [mkMessage RoleSystem systemPrompt] else []) @ pastMessages"

section \<open>Clarify workflow\<close>

text \<open>
  \<open>ClarifyWithUserWorkflow.Execute\<close>. The workflow holds a pointer to the session's
  conversation; the model takes the conversation and returns it updated.
\<close>

definition ClarifyWithUser_Execute ::
  "env \<Rightarrow> ChatCompletionMessage list \<Rightarrow> exec_result \<times> ChatCompletionMessage list" where
  "ClarifyWithUser_Execute E messages =
     (case PromptBuilder E ''clarify_with_user''
             (emptyTemplateData\<lparr>Date := timeNow E, Messages := messages\<rparr>) of
        Inl err \<Rightarrow> (([], False, Some err), messages)
      | Inr prompt \<Rightarrow>
          (case clarifyCompletion E prompt of
             Inl err \<Rightarrow>
               (([], False, Some (Errorf ''failed to create chat completion'' err)), messages)
           | Inr r \<Rightarrow>
               if \<not> NeedClarification r
               then ((Verification r, False, None),
                     messages @ [mkMessage RoleAssistant (Verification r)])
               else ((Question r, True, None),
                     messages @ [mkMessage RoleAssistant (Question r)])))"

section \<open>Concurrent summarizer\<close>

text \<open>The local types \<open>workItem\<close> and \<open>resultItem\<close> of \<open>summarizeWebSearchResult\<close>.\<close>

record workItem =
  w_index :: nat
  w_result :: string

record resultItem =
  r_index :: nat
  r_summary :: string
  r_err :: "error option"

definition nl :: string where
  "nl = [CHR 0x0A]"

text \<open>\<open>strings.Join\<close>.\<close>

fun Join :: "string list \<Rightarrow> string \<Rightarrow> string" where
  "Join [] sep = []"
| "Join [x] sep = x"
| "Join (x # y # ys) sep = x @ sep @ Join (y # ys) sep"

text \<open>The \<open>fmt.Sprintf\<close> of the worker: the tagged block of summary and excerpts.\<close>

definition formatSummary :: "SummarizedResearchOutputSchema \<Rightarrow> string" where
  "formatSummary n =
     ''<summary>'' @ nl @ Summary n @ nl @ ''</summary>'' @ nl @
     ''<key_excerpts>'' @ nl @ KeyExcerpts n @ nl @ ''</key_excerpts>''"

text \<open>
  The body of the worker's \<open>for work := range workChan\<close>: the values it sends to the
  result channel for one work item, in the order it sends them. A prompt that cannot be
  built sends the error and continues with the next item. A failed completion sends the
  error and, there being no \<open>continue\<close> on that branch, goes on to format and send
  what the response variable holds.
\<close>

definition worker_body :: "env \<Rightarrow> workItem \<Rightarrow> resultItem list" where
  "worker_body E work =
     (case PromptBuilder E ''summarize_research''
             (emptyTemplateData\<lparr>RawResearchNote := w_result work\<rparr>) of
        Inl err \<Rightarrow>
          [\<lparr>r_index = w_index work, r_summary = [],
            r_err = Some (Errorf ''failed to build prompt'' err)\<rparr>]
      | Inr prompt \<Rightarrow>
          (case summaryCompletion E prompt of
             (err, summarizedResearchNote) \<Rightarrow>
               (case err of
                  Some e \<Rightarrow>
                    [\<lparr>r_index = w_index work, r_summary = [],
                      r_err = Some (Errorf ''failed to summarize'' e)\<rparr>]
                | None \<Rightarrow> []) @
               [\<lparr>r_index = w_index work,
                 r_summary = formatSummary summarizedResearchNote, r_err = None\<rparr>]))"

text \<open>
  A worker goroutine is at its \<open>range\<close> (waiting for a work item), inside the loop
  body with the sends it still has to make for its item, or has left the loop because
  the work channel is closed and empty.
\<close>

datatype worker = AtRange | InBody workItem "resultItem list" | Exited

text \<open>
  The state of one call of \<open>summarizeWebSearchResult\<close> after its goroutines are
  started. \<open>feed_i\<close> is the loop variable of the goroutine that fills \<open>workChan\<close>
  and \<open>workClosed\<close> its deferred \<open>close\<close>; \<open>recv_i\<close> is the loop variable of the
  collecting loop; \<open>ret\<close> is what the call has returned. \<open>received\<close> is a history
  variable: every value the collecting loop has taken off \<open>resultChan\<close>, in order. No
  step reads it.
\<close>

record summarizer =
  feed_i :: nat
  workChan :: "workItem list"
  workClosed :: bool
  resultChan :: "resultItem list"
  workers :: "worker list"
  recv_i :: nat
  summarizedResearchNotes :: "string list"
  compressedNotes :: "string list"
  ret :: "(string \<times> error option) outcome"
  received :: "resultItem list"

text \<open>\<open>numWorkers := min(len(results), 5)\<close> and the loop that starts the workers.\<close>

definition numWorkers :: "string list \<Rightarrow> nat" where
  "numWorkers results = min (length results) 5"

function start_workers :: "nat \<Rightarrow> nat \<Rightarrow> worker list \<Rightarrow> worker list" where
  "start_workers i n ws = (if i < n then start_workers (i + 1) n (ws @ [AtRange]) else ws)"
  by pat_completeness auto
termination
  by (relation "measure (\<lambda>(i, n, ws). n - i)") auto

definition init :: "string list \<Rightarrow> string list \<Rightarrow> summarizer" where
  "init results notes =
     \<lparr>feed_i = 0, workChan = [], workClosed = False, resultChan = [],
      workers = start_workers 0 (numWorkers results) [],
      recv_i = 0, summarizedResearchNotes = replicate (length results) [],
      compressedNotes = notes, ret = Pending, received = []\<rparr>"

text \<open>
  One step of each goroutine. Both channels are buffered with capacity \<open>len(results)\<close>:
  a send needs room in the buffer, a receive needs a value in it, and a goroutine that
  cannot take its step is blocked and leaves the state as it is.
\<close>

definition feeder_step :: "string list \<Rightarrow> summarizer \<Rightarrow> summarizer" where
  "feeder_step results s =
     (if workClosed s then s
      else if feed_i s < length results then
        (if length (workChan s) < length results
         then s\<lparr>workChan := workChan s @ [\<lparr>w_index = feed_i s, w_result = results ! feed_i s\<rparr>],
                feed_i := feed_i s + 1\<rparr>
         else s)
      else s\<lparr>workClosed := True\<rparr>)"

definition worker_step :: "env \<Rightarrow> string list \<Rightarrow> nat \<Rightarrow> summarizer \<Rightarrow> summarizer" where
  "worker_step E results k s =
     (if k < length (workers s) then
        (case workers s ! k of
           AtRange \<Rightarrow>
             (case workChan s of
                [] \<Rightarrow> if workClosed s then s\<lparr>workers := (workers s)[k := Exited]\<rparr> else s
              | work # q \<Rightarrow>
                  s\<lparr>workChan := q,
                    workers := (workers s)[k := InBody work (worker_body E work)]\<rparr>)
         | InBody work [] \<Rightarrow> s\<lparr>workers := (workers s)[k := AtRange]\<rparr>
         | InBody work (r # rs) \<Rightarrow>
             if length (resultChan s) < length results
             then s\<lparr>resultChan := resultChan s @ [r],
                    workers := (workers s)[k := InBody work rs]\<rparr>
             else s
         | Exited \<Rightarrow> s)
      else s)"

definition orchestrator_step :: "string list \<Rightarrow> summarizer \<Rightarrow> summarizer" where
  "orchestrator_step results s =
     (case ret s of
        Pending \<Rightarrow>
          if recv_i s < length results then
            (case resultChan s of
               [] \<Rightarrow> s
             | r # q \<Rightarrow>
                 (case r_err r of
                    Some e \<Rightarrow>
                      s\<lparr>resultChan := q, received := received s @ [r],
                        ret := Returned ([], Some e)\<rparr>
                  | None \<Rightarrow>
                      if r_index r < length (summarizedResearchNotes s)
                      then s\<lparr>resultChan := q, received := received s @ [r],
                             summarizedResearchNotes :=
                               (summarizedResearchNotes s)[r_index r := r_summary r],
                             recv_i := recv_i s + 1\<rparr>
                      else s\<lparr>resultChan := q, received := received s @ [r],
                             ret := Panicked\<rparr>))
          else s\<lparr>compressedNotes := compressedNotes s @ summarizedResearchNotes s,
                 ret := Returned (Join (summarizedResearchNotes s) nl, None)\<rparr>
      | Returned x \<Rightarrow> s
      | Panicked \<Rightarrow> s)"

fun step :: "env \<Rightarrow> string list \<Rightarrow> actor \<Rightarrow> summarizer \<Rightarrow> summarizer" where
  "step E results Feeder s = feeder_step results s"
| "step E results (Worker k) s = worker_step E results k s"
| "step E results Orchestrator s = orchestrator_step results s"

fun run :: "env \<Rightarrow> string list \<Rightarrow> actor list \<Rightarrow> summarizer \<Rightarrow> summarizer" where
  "run E results [] s = s"
| "run E results (a # sched) s = run E results sched (step E results a s)"

text \<open>
  \<open>summarizeWebSearchResult\<close>, run under a schedule. It returns what the call returned
  and the compressed notes behind the pointer it was given.
\<close>

definition summarizeWebSearchResult ::
  "env \<Rightarrow> actor list \<Rightarrow> string list \<Rightarrow> string list
     \<Rightarrow> (string \<times> error option) outcome \<times> string list" where
  "summarizeWebSearchResult E sched results notes =
     (if length results = 0
      then (Returned ([], Some (ErrorNew ''no results to summarize'')), notes)
      else (let s = run E results sched (init results notes)
            in (ret s, compressedNotes s)))"

section \<open>Tools\<close>

text \<open>\<open>ReflectionTool.Execute\<close>: decode the arguments, acknowledge the reflection.\<close>

definition ReflectionTool_Execute :: "env \<Rightarrow> string \<Rightarrow> error + string" where
  "ReflectionTool_Execute E input =
     (case jsonReflection E input of
        Inl err \<Rightarrow> Inl err
      | Inr reflection \<Rightarrow> Inr (''Reflection recorded: '' @ reflection))"

section \<open>Web research workflow\<close>

text \<open>
  The workflow holds pointers to the research ledger and to the compressed notes of the
  session: the model passes both and returns them updated.
\<close>

type_synonym research_state = "ChatCompletionMessage list \<times> string list"

definition toolMessage :: "ToolCall \<Rightarrow> string \<Rightarrow> ChatCompletionMessage" where
  "toolMessage toolCall content =
     \<lparr>Role = RoleTool, Content = content, Name = tc_Name toolCall,
      ToolCallID = tc_ID toolCall, ToolCalls = []\<rparr>"

text \<open>
  The two \<open>if\<close> blocks in the body of \<open>for _, toolCall := range msg.ToolCalls\<close>.
  Each yields \<open>Returned None\<close> when the loop body goes on, and the error that
  \<open>Execute\<close> returns otherwise.
\<close>

definition search_branch ::
  "env \<Rightarrow> ToolCall \<Rightarrow> research_state \<Rightarrow> error option outcome \<times> research_state" where
  "search_branch E toolCall st =
     (case st of (messages, notes) \<Rightarrow>
        (case searchExecute E (tc_Arguments toolCall) of
           Inl err \<Rightarrow> (Returned (Some (Errorf ''failed to execute search tool'' err)), st)
         | Inr results \<Rightarrow>
             (case summarizeWebSearchResult E (scheduler E messages) results notes of
                (Returned (summarizedResults, None), notes') \<Rightarrow>
                  (Returned None, (messages @ [toolMessage toolCall summarizedResults], notes'))
              | (Returned (summarizedResults, Some err), notes') \<Rightarrow>
                  (Returned (Some (Errorf ''failed to summarize web search results'' err)),
                   (messages, notes'))
              | (Panicked, notes') \<Rightarrow> (Panicked, (messages, notes'))
              | (Pending, notes') \<Rightarrow> (Pending, (messages, notes')))))"

definition reflection_branch ::
  "env \<Rightarrow> ToolCall \<Rightarrow> research_state \<Rightarrow> error option outcome \<times> research_state" where
  "reflection_branch E toolCall st =
     (case st of (messages, notes) \<Rightarrow>
        (case ReflectionTool_Execute E (tc_Arguments toolCall) of
           Inl err \<Rightarrow> (Returned (Some err), st)
         | Inr result \<Rightarrow> (Returned None, (messages @ [toolMessage toolCall result], notes))))"

fun toolCalls_loop ::
  "env \<Rightarrow> ToolCall list \<Rightarrow> research_state \<Rightarrow> error option outcome \<times> research_state" where
  "toolCalls_loop E [] st = (Returned None, st)"
| "toolCalls_loop E (toolCall # rest) st =
     (case (if tc_Name toolCall = ''search_tool'' then search_branch E toolCall st
            else (Returned None, st)) of
        (Returned None, st1) \<Rightarrow>
          (case (if tc_Name toolCall = ''reflection_tool''
                 then reflection_branch E toolCall st1
                 else (Returned None, st1)) of
             (Returned None, st2) \<Rightarrow> toolCalls_loop E rest st2
           | (r, st2) \<Rightarrow> (r, st2))
      | (r, st1) \<Rightarrow> (r, st1))"

text \<open>
  \<open>WebResearchWorkflow.Execute\<close>. \<open>resp.Choices[0]\<close> panics when the completion
  service answers with no choice.
\<close>

definition WebResearch_Execute ::
  "env \<Rightarrow> research_state \<Rightarrow> exec_result outcome \<times> research_state" where
  "WebResearch_Execute E st =
     (case st of (messages, notes) \<Rightarrow>
        (case PromptBuilder E ''web_research''
                (emptyTemplateData\<lparr>Date := timeNow E, Messages := messages\<rparr>) of
           Inl err \<Rightarrow> (Returned ([], False, Some err), st)
         | Inr prompt \<Rightarrow>
             (case chatCompletion E (BuildConversationHistory prompt messages) of
                Inl err \<Rightarrow>
                  (Returned ([], False, Some (Errorf ''failed to create chat completion'' err)),
                   st)
              | Inr [] \<Rightarrow> (Panicked, st)
              | Inr (msg # choices) \<Rightarrow>
                  if length (ToolCalls msg) = 0
                  then (Returned ([], False, None), (messages @ [msg], notes))
                  else
                    (case toolCalls_loop E (ToolCalls msg) (messages @ [msg], notes) of
                       (Returned None, st') \<Rightarrow> (Returned ([], True, None), st')
                     | (Returned (Some err), st') \<Rightarrow> (Returned ([], False, Some err), st')
                     | (Panicked, st') \<Rightarrow> (Panicked, st')
                     | (Pending, st') \<Rightarrow> (Pending, st')))))"

section \<open>Brief and report workflows\<close>

definition ResearchBriefGeneration_Execute ::
  "env \<Rightarrow> ChatCompletionMessage list \<Rightarrow> exec_result \<times> ChatCompletionMessage list" where
  "ResearchBriefGeneration_Execute E messages =
     (case PromptBuilder E ''research_brief_generation''
             (emptyTemplateData\<lparr>Date := timeNow E, Messages := messages\<rparr>) of
        Inl err \<Rightarrow> (([], False, Some err), messages)
      | Inr prompt \<Rightarrow>
          (case briefCompletion E prompt of
             Inl err \<Rightarrow>
               (([], False, Some (Errorf ''failed to create chat completion'' err)), messages)
           | Inr brief \<Rightarrow>
               ((brief, False, None), messages @ [mkMessage RoleAssistant brief])))"

definition ResearchReportGeneration_Execute ::
  "env \<Rightarrow> string \<Rightarrow> string list \<Rightarrow> exec_result" where
  "ResearchReportGeneration_Execute E brief notes =
     (case PromptBuilder E ''research_report_generation''
             (emptyTemplateData\<lparr>ResearchBrief := brief, CompressedResearchNotes := notes\<rparr>) of
        Inl err \<Rightarrow> ([], False, Some (Errorf ''failed to build prompt'' err))
      | Inr prompt \<Rightarrow>
          (case reportCompletion E prompt of
             Inl err \<Rightarrow> ([], False, Some (Errorf ''failed to generate research report'' err))
           | Inr report \<Rightarrow> (report, True, None)))"

section \<open>The session (main.go)\<close>

text \<open>
  What the session does that can be seen from outside: what it prints, and which
  workflow it executes.
\<close>

datatype event =
    Print_welcome
  | Print_userPrompt
  | Print_inputError error
  | Print_clarifyError error
  | Print_gpt string
  | Execute_clarifyWithUser
  | Execute_researchBriefGeneration
  | Execute_webResearch
  | Execute_researchReportGeneration

text \<open>
  \<open>ChatSessionState\<close>, together with the lines still to be read from standard input
  (\<open>getUserMessage\<close> answers \<open>false\<close> once they are used up) and the events so far.
\<close>

record ChatSession =
  conversation :: "ChatCompletionMessage list"
  researchConversation :: "ChatCompletionMessage list"
  researchBrief :: string
  compressedResearchNotes :: "string list"
  stdin :: "string list"
  events :: "event list"

definition emit :: "event \<Rightarrow> ChatSession \<Rightarrow> ChatSession" where
  "emit e cs = cs\<lparr>events := events cs @ [e]\<rparr>"

text \<open>The state \<open>NewChatSession\<close> builds.\<close>

definition NewChatSession :: "string list \<Rightarrow> ChatSession" where
  "NewChatSession input =
     \<lparr>conversation = [], researchConversation = [], researchBrief = [],
      compressedResearchNotes = [], stdin = input, events = []\<rparr>"

definition addUserMessage :: "string \<Rightarrow> ChatSession \<Rightarrow> error option \<times> ChatSession" where
  "addUserMessage message cs =
     (if length message = 0 then (Some (ErrorNew ''user message cannot be empty''), cs)
      else (None, cs\<lparr>conversation := conversation cs @ [mkMessage RoleUser message]\<rparr>))"

definition processUserInput :: "ChatSession \<Rightarrow> bool \<times> ChatSession" where
  "processUserInput cs =
     (case stdin cs of
        [] \<Rightarrow> (False, emit Print_userPrompt cs)
      | userInput # rest \<Rightarrow>
          (case addUserMessage userInput ((emit Print_userPrompt cs)\<lparr>stdin := rest\<rparr>) of
             (Some err, cs1) \<Rightarrow> (True, emit (Print_inputError err) cs1)
           | (None, cs1) \<Rightarrow> (True, cs1)))"

text \<open>
  The body of the first loop of \<open>Run\<close> after the input is read: execute the clarify
  workflow; the flag says whether the loop goes round again.
\<close>

definition clarify_body :: "env \<Rightarrow> ChatSession \<Rightarrow> bool \<times> ChatSession" where
  "clarify_body E cs =
     (case ClarifyWithUser_Execute E (conversation cs) of
        ((resp, cont, err), messages) \<Rightarrow>
          (let cs1 = (emit Execute_clarifyWithUser cs)\<lparr>conversation := messages\<rparr>
           in case err of
                Some e \<Rightarrow> (False, emit (Print_clarifyError e) cs1)
              | None \<Rightarrow> (cont, emit (Print_gpt resp) cs1)))"

lemma stdin_clarify_body: "stdin (snd (clarify_body E cs)) = stdin cs"
  by (simp add: clarify_body_def emit_def Let_def split: prod.splits option.splits)

lemma stdin_processUserInput:
  "processUserInput cs = (True, cs1) \<Longrightarrow> length (stdin cs1) < length (stdin cs)"
  by (auto simp: processUserInput_def addUserMessage_def emit_def
           split: list.splits if_splits)

function clarify_loop :: "env \<Rightarrow> ChatSession \<Rightarrow> ChatSession" where
  "clarify_loop E cs =
     (case processUserInput cs of
        (False, cs1) \<Rightarrow> cs1
      | (True, cs1) \<Rightarrow>
          (case clarify_body E cs1 of
             (False, cs2) \<Rightarrow> cs2
           | (True, cs2) \<Rightarrow> clarify_loop E cs2))"
  by pat_completeness auto
termination
  apply (relation "measure (\<lambda>(E, cs). length (stdin cs))")
   apply simp
  apply simp
  subgoal for E cs x y xa ya
    using stdin_processUserInput [of cs y] stdin_clarify_body [of E y]
    by (metis snd_conv)
  done

text \<open>
  The second loop of \<open>Run\<close>: execute the web research workflow until it reports no
  continuation or fails. Nothing in the program bounds the number of rounds, so the loop
  is run with fuel and is \<open>Pending\<close> when the fuel runs out.
\<close>

fun research_loop :: "env \<Rightarrow> nat \<Rightarrow> ChatSession \<Rightarrow> unit outcome \<times> ChatSession" where
  "research_loop E 0 cs = (Pending, cs)"
| "research_loop E (Suc fuel) cs =
     (case WebResearch_Execute E (researchConversation cs, compressedResearchNotes cs) of
        (r, (messages, notes)) \<Rightarrow>
          (let cs1 = (emit Execute_webResearch cs)
                       \<lparr>researchConversation := messages, compressedResearchNotes := notes\<rparr>
           in case r of
                Returned (resp, cont, err) \<Rightarrow>
                  if err \<noteq> None then (Returned (), cs1)
                  else if \<not> cont then (Returned (), cs1)
                  else research_loop E fuel cs1
              | Panicked \<Rightarrow> (Panicked, cs1)
              | Pending \<Rightarrow> (Pending, cs1)))"

text \<open>
  \<open>ChatSession.Run\<close>, in the order of its text: the clarify loop, workflow 2 (the
  brief, stored in the state and seeded into the research ledger), the research loop and
  workflow 4 (the report). \<open>Run\<close> yields what the Go function returns and the session
  afterwards.
\<close>

definition brief_phase :: "env \<Rightarrow> ChatSession \<Rightarrow> error option \<times> ChatSession" where
  "brief_phase E cs =
     (case ResearchBriefGeneration_Execute E (conversation cs) of
        ((resp, cont, err), messages) \<Rightarrow>
          (let cs1 = (emit Execute_researchBriefGeneration cs)\<lparr>conversation := messages\<rparr>
           in case err of
                Some e \<Rightarrow> (Some (Errorf ''error generating response'' e), cs1)
              | None \<Rightarrow>
                  (None,
                   cs1\<lparr>researchBrief := resp,
                       researchConversation :=
                         researchConversation cs1 @ [mkMessage RoleUser resp]\<rparr>)))"

definition report_phase :: "env \<Rightarrow> ChatSession \<Rightarrow> error option \<times> ChatSession" where
  "report_phase E cs =
     (case ResearchReportGeneration_Execute E
             (researchBrief cs) (compressedResearchNotes cs) of
        (resp, cont, err) \<Rightarrow>
          (let cs1 = emit Execute_researchReportGeneration cs
           in case err of
                Some e \<Rightarrow> (Some (Errorf ''error generating response'' e), cs1)
              | None \<Rightarrow> (None, emit (Print_gpt resp) cs1)))"

definition Run :: "env \<Rightarrow> nat \<Rightarrow> ChatSession \<Rightarrow> error option outcome \<times> ChatSession" where
  "Run E fuel cs =
     (case brief_phase E (clarify_loop E (emit Print_welcome cs)) of
        (Some err, cs2) \<Rightarrow> (Returned (Some err), cs2)
      | (None, cs2) \<Rightarrow>
          (case research_loop E fuel cs2 of
             (Returned u, cs3) \<Rightarrow>
               (case report_phase E cs3 of (err, cs4) \<Rightarrow> (Returned err, cs4))
           | (Panicked, cs3) \<Rightarrow> (Panicked, cs3)
           | (Pending, cs3) \<Rightarrow> (Pending, cs3)))"

section \<open>Derived notions and example environments\<close>

text \<open>The tool names the loop of \<open>WebResearchWorkflow.Execute\<close> acts on.\<close>

definition known_tool :: "ToolCall \<Rightarrow> bool" where
  "known_tool toolCall \<longleftrightarrow>
     tc_Name toolCall = ''search_tool'' \<or> tc_Name toolCall = ''reflection_tool''"

text \<open>
  The program keeps no counter of search calls. Every search invocation that is
  carried out leaves one tool-role message named \<open>search_tool\<close> in the research
  ledger; their number is the number of searches made so far.
\<close>

definition searchCalls :: "ChatCompletionMessage list \<Rightarrow> nat" where
  "searchCalls messages =
     length (filter (\<lambda>m. Role m = RoleTool \<and> Name m = ''search_tool'') messages)"



text \<open>
  The arguments of a tool invocation are a JSON document. The two used in the examples:
  \<open>{"query": "go concurrency"}\<close> for the search tool and \<open>{"reflection": "enough"}\<close>
  for the reflection tool.
\<close>

definition quote :: string where
  "quote = [CHR 0x22]"

definition searchArguments :: string where
  "searchArguments =
     ''{'' @ quote @ ''query'' @ quote @ '': '' @ quote @ ''go concurrency'' @ quote @ ''}''"

definition reflectionArguments :: string where
  "reflectionArguments =
     ''{'' @ quote @ ''reflection'' @ quote @ '': '' @ quote @ ''enough'' @ quote @ ''}''"

text \<open>
  An environment in which every collaborator succeeds: the template engine answers with
  the raw note, the summary of a prompt is the prompt, the model answers with a single
  turn without tool invocations, and the goroutines of a batch of one document run one
  after the other. The search for \<open>searchArguments\<close> finds one document and the
  reflection of \<open>reflectionArguments\<close> is decoded; any other argument string is
  refused by the JSON decoder, as \<open>SearchTool.Execute\<close> and \<open>ReflectionTool.Execute\<close>
  refuse a string that is not JSON before doing anything else.
\<close>

definition env0 :: env where
  "env0 =
     \<lparr>templateParse = (\<lambda>name. None),
      templateExecute = (\<lambda>name data. Inr (RawResearchNote data)),
      timeNow = ''01/01/2026'',
      clarifyCompletion =
        (\<lambda>prompt. Inr \<lparr>NeedClarification = False, Question = [], Verification = ''ok''\<rparr>),
      briefCompletion = (\<lambda>prompt. Inr ''brief''),
      reportCompletion = (\<lambda>prompt. Inr ''report''),
      summaryCompletion = (\<lambda>prompt. (None, \<lparr>Summary = prompt, KeyExcerpts = []\<rparr>)),
      chatCompletion = (\<lambda>messages. Inr [mkMessage RoleAssistant ''done'']),
      searchExecute =
        (\<lambda>arguments.
           if arguments = searchArguments then Inr [''doc'']
           else Inl (Errorf ''failed to parse search input'' (Error ''invalid character''))),
      jsonReflection =
        (\<lambda>arguments.
           if arguments = reflectionArguments then Inr ''enough''
           else Inl (Error ''invalid character'')),
      scheduler =
        (\<lambda>messages. [Feeder, Feeder, Worker 0, Worker 0, Orchestrator, Orchestrator])\<rparr>"




definition unknownTurn :: ChatCompletionMessage where
  "unknownTurn =
     \<lparr>Role = RoleAssistant, Content = [], Name = [], ToolCallID = [],
      ToolCalls = [\<lparr>tc_ID = ''call'', tc_Name = ''browse_tool'', tc_Arguments = ''url''\<rparr>]\<rparr>"

definition env_unknown :: env where
  "env_unknown = env0\<lparr>chatCompletion := (\<lambda>messages. Inr [unknownTurn])\<rparr>"

definition env_research_fails :: env where
  "env_research_fails = env0\<lparr>chatCompletion := (\<lambda>messages. Inl (Error ''unavailable''))\<rparr>"

definition env_brief_fails :: env where
  "env_brief_fails = env0\<lparr>briefCompletion := (\<lambda>prompt. Inl (Error ''unavailable''))\<rparr>"

definition env_report_fails :: env where
  "env_report_fails = env_research_fails\<lparr>reportCompletion := (\<lambda>prompt. Inl (Error ''unavailable''))\<rparr>"


text \<open>The clarify completion asks a question instead of confirming.\<close>

definition env_asks :: env where
  "env_asks = env0\<lparr>clarifyCompletion :=
     (\<lambda>prompt. Inr \<lparr>NeedClarification = True, Question = ''which one?'', Verification = []\<rparr>)\<rparr>"

text \<open>
  The session of one user line when the research loop starts, and after one round of it.
\<close>

definition briefed :: "env \<Rightarrow> ChatSession" where
  "briefed E = snd (brief_phase E (clarify_loop E (emit Print_welcome (NewChatSession [''topic'']))))"

definition researched :: "env \<Rightarrow> ChatSession" where
  "researched E = snd (research_loop E 1 (briefed E))"

section \<open>Derived notions for the summarizer\<close>

text \<open>
  The work item of document \<open>k\<close>; the number of work items the workers have taken off
  the work channel so far; every value sent to the result channel so far, in the order
  of sending (the channel is first-in first-out, so these are the values already
  received followed by those still buffered); and the values of a list that belong to
  job \<open>k\<close>.
\<close>

definition item :: "string list \<Rightarrow> nat \<Rightarrow> workItem" where
  "item results k = \<lparr>w_index = k, w_result = results ! k\<rparr>"

definition taken :: "summarizer \<Rightarrow> nat" where
  "taken s = feed_i s - length (workChan s)"

definition sent :: "summarizer \<Rightarrow> resultItem list" where
  "sent s = received s @ resultChan s"

definition of_job :: "nat \<Rightarrow> resultItem list \<Rightarrow> resultItem list" where
  "of_job k xs = filter (\<lambda>r. r_index r = k) xs"

text \<open>
  The job a worker is working on, and the values it still has to send for job \<open>k\<close>;
  both for one worker and for the pool.
\<close>

fun job_of :: "worker \<Rightarrow> nat list" where
  "job_of (InBody work p) = [w_index work]"
| "job_of AtRange = []"
| "job_of Exited = []"

fun pending_of :: "nat \<Rightarrow> worker \<Rightarrow> resultItem list" where
  "pending_of k (InBody work p) = (if w_index work = k then p else [])"
| "pending_of k AtRange = []"
| "pending_of k Exited = []"

definition jobs :: "worker list \<Rightarrow> nat list" where
  "jobs ws = concat (map job_of ws)"

definition pend :: "nat \<Rightarrow> worker list \<Rightarrow> resultItem list" where
  "pend k ws = concat (map (pending_of k) ws)"

text \<open>Whether the summarization of a document fails, and the formatted summary it yields.\<close>

definition job_failed :: "env \<Rightarrow> string \<Rightarrow> bool" where
  "job_failed E text \<longleftrightarrow>
     (case PromptBuilder E ''summarize_research''
             (emptyTemplateData\<lparr>RawResearchNote := text\<rparr>) of
        Inl err \<Rightarrow> True
      | Inr prompt \<Rightarrow> fst (summaryCompletion E prompt) \<noteq> None)"

definition job_summary :: "env \<Rightarrow> string \<Rightarrow> string" where
  "job_summary E text =
     (case PromptBuilder E ''summarize_research''
             (emptyTemplateData\<lparr>RawResearchNote := text\<rparr>) of
        Inl err \<Rightarrow> []
      | Inr prompt \<Rightarrow> formatSummary (snd (summaryCompletion E prompt)))"

text \<open>
  Invariants of a batch. The feeding goroutine: the work channel holds the items fed and
  not yet taken, in order, and is closed only when all are fed.
\<close>

definition feed_inv :: "string list \<Rightarrow> summarizer \<Rightarrow> bool" where
  "feed_inv results s \<longleftrightarrow>
     feed_i s \<le> length results \<and> length (workChan s) \<le> feed_i s \<and>
     workChan s = map (item results) [taken s ..< feed_i s] \<and>
     (workClosed s \<longrightarrow> feed_i s = length results)"

text \<open>
  The workers: there is at least one; no two work on the same job; a worker in the loop
  body holds a job that was taken and only has values of that job to send, and a worker
  has left the loop only if the work channel is closed and empty; for every job, the
  values sent for it followed by the values still to be sent for it are the sends of
  the loop body for that job if the job was taken, and nothing otherwise; and every
  value sent carries the index of a document.
\<close>

fun worker_ok :: "summarizer \<Rightarrow> worker \<Rightarrow> bool" where
  "worker_ok s (InBody work p) \<longleftrightarrow>
     w_index work < taken s \<and> (\<forall>r \<in> set p. r_index r = w_index work)"
| "worker_ok s AtRange \<longleftrightarrow> True"
| "worker_ok s Exited \<longleftrightarrow> workChan s = [] \<and> workClosed s"

definition pool_inv :: "env \<Rightarrow> string list \<Rightarrow> summarizer \<Rightarrow> bool" where
  "pool_inv E results s \<longleftrightarrow>
     workers s \<noteq> [] \<and> distinct (jobs (workers s)) \<and>
     (\<forall>w \<in> set (workers s). worker_ok s w) \<and>
     (\<forall>k. of_job k (sent s) @ pend k (workers s) =
            (if k < taken s then worker_body E (item results k) else [])) \<and>
     (\<forall>r \<in> set (sent s). r_index r < length results)"

text \<open>
  The collecting loop: the slot of a document holds the summary of the last value
  received for it; while the call has not returned, the loop variable counts the
  values received, none of them carried an error and the compressed notes are
  untouched; after a successful return exactly as many values as documents were
  received and the notes array was appended; after a failed return the last value
  received carried the error returned, no earlier one carried an error, and the
  compressed notes are untouched. The call never panics.
\<close>

definition notes_ok :: "string list \<Rightarrow> summarizer \<Rightarrow> bool" where
  "notes_ok results s \<longleftrightarrow>
     (\<forall>k < length results.
        summarizedResearchNotes s ! k =
          (if of_job k (received s) = [] then []
           else r_summary (last (of_job k (received s)))))"

definition orch_inv :: "string list \<Rightarrow> string list \<Rightarrow> summarizer \<Rightarrow> bool" where
  "orch_inv results notes s \<longleftrightarrow>
     length (summarizedResearchNotes s) = length results \<and>
     length (received s) \<le> length results \<and>
     ret s \<noteq> Panicked \<and>
     (ret s = Pending \<longrightarrow>
        recv_i s = length (received s) \<and> (\<forall>r \<in> set (received s). r_err r = None) \<and>
        notes_ok results s \<and> compressedNotes s = notes) \<and>
     (\<forall>str. ret s = Returned (str, None) \<longrightarrow>
        length (received s) = length results \<and>
        (\<forall>r \<in> set (received s). r_err r = None) \<and> notes_ok results s \<and>
        str = Join (summarizedResearchNotes s) nl \<and>
        compressedNotes s = notes @ summarizedResearchNotes s) \<and>
     (\<forall>str e. ret s = Returned (str, Some e) \<longrightarrow>
        str = [] \<and> compressedNotes s = notes \<and> received s \<noteq> [] \<and>
        r_err (last (received s)) = Some e \<and>
        (\<forall>r \<in> set (butlast (received s)). r_err r = None))"

definition invs :: "env \<Rightarrow> string list \<Rightarrow> string list \<Rightarrow> summarizer \<Rightarrow> bool" where
  "invs E results notes s \<longleftrightarrow>
     feed_inv results s \<and> pool_inv E results s \<and> orch_inv results notes s"

text \<open>
  A state is quiescent when no goroutine can take a step. \<open>remaining\<close> bounds the
  number of steps that are still possible, and \<open>effective\<close> counts the steps of a
  schedule that were not blocked.
\<close>

definition all_actors :: "summarizer \<Rightarrow> actor list" where
  "all_actors s = Feeder # Orchestrator # map Worker [0..<length (workers s)]"

definition quiescent :: "env \<Rightarrow> string list \<Rightarrow> summarizer \<Rightarrow> bool" where
  "quiescent E results s \<longleftrightarrow> list_all (\<lambda>a. step E results a s = s) (all_actors s)"

fun wcost :: "worker \<Rightarrow> nat" where
  "wcost AtRange = 1"
| "wcost (InBody work p) = length p + 2"
| "wcost Exited = 0"

definition remaining :: "string list \<Rightarrow> summarizer \<Rightarrow> nat" where
  "remaining results s =
     5 * (length results - feed_i s) + (if workClosed s then 0 else 1) +
     4 * length (workChan s) + sum_list (map wcost (workers s)) +
     (if ret s = Pending then length results - recv_i s + 1 else 0)"

fun effective :: "env \<Rightarrow> string list \<Rightarrow> actor list \<Rightarrow> summarizer \<Rightarrow> nat" where
  "effective E results [] s = 0"
| "effective E results (a # sched) s =
     (if step E results a s = s then 0 else 1) +
     effective E results sched (step E results a s)"

text \<open>
  An environment in which the summary of the document \<open>bad\<close> fails, and schedules for
  a batch of two documents: the second job is finished and collected before the first;
  the result of the first job is collected before the error of the second; the error
  of the first job is collected while the second job is still waiting to be fed, and
  the worker then goes on with the first job. The last schedule is for a batch of three
  documents of which the first two fail: the error of the first job is collected when
  the first two workers have sent one value each, and the schedule runs on until no
  goroutine can take a step. Last, an environment in which the template of the
  summarization prompt cannot be executed, and the schedule that runs a batch of two
  successful jobs until no goroutine can take a step.
\<close>

definition env_job_fails :: env where
  "env_job_fails =
     env0\<lparr>summaryCompletion :=
       (\<lambda>prompt. if prompt = ''bad''
                 then (Some (Error ''unavailable''), \<lparr>Summary = [], KeyExcerpts = []\<rparr>)
                 else (None, \<lparr>Summary = prompt, KeyExcerpts = []\<rparr>))\<rparr>"

definition sched_reversed :: "actor list" where
  "sched_reversed =
     [Feeder, Feeder, Feeder, Worker 0, Worker 1, Worker 1, Worker 0,
      Orchestrator, Orchestrator, Orchestrator]"

definition sched_error_second :: "actor list" where
  "sched_error_second =
     [Feeder, Feeder, Feeder, Worker 0, Worker 1, Worker 0, Orchestrator,
      Worker 1, Worker 1, Orchestrator]"

definition sched_error_first :: "actor list" where
  "sched_error_first = [Feeder, Worker 0, Worker 0, Orchestrator, Worker 0]"

definition sched_blocked :: "actor list" where
  "sched_blocked =
     [Feeder, Feeder, Feeder, Feeder, Worker 0, Worker 1, Worker 2,
      Worker 0, Worker 0, Worker 1, Orchestrator, Worker 1,
      Worker 0, Worker 0, Worker 1, Worker 1]"

definition env_prompt_fails :: env where
  "env_prompt_fails =
     env0\<lparr>templateExecute := (\<lambda>name data. Inl (Error ''missing field''))\<rparr>"

definition sched_to_the_end :: "actor list" where
  "sched_to_the_end = sched_reversed @ [Worker 0, Worker 1, Worker 0, Worker 1]"

section \<open>Worker pool size\<close>

declare clarify_loop.simps [simp del]
declare start_workers.simps [simp del]

lemma length_start_workers: "length (start_workers i n ws) = length ws + (n - i)"
proof (induction i n ws rule: start_workers.induct)
  case (1 i n ws)
  show ?case
  proof (cases "i < n")
    case True
    then show ?thesis using 1 by (subst start_workers.simps) simp
  next
    case False
    then show ?thesis by (subst start_workers.simps) simp
  qed
qed

lemma workers_feeder_step: "workers (feeder_step results s) = workers s"
  by (simp add: feeder_step_def)

lemma workers_orchestrator_step: "workers (orchestrator_step results s) = workers s"
  by (simp add: orchestrator_step_def split: outcome.splits list.splits option.splits)

lemma length_workers_worker_step:
  "length (workers (worker_step E results k s)) = length (workers s)"
  by (simp add: worker_step_def split: worker.splits list.splits)

lemma length_workers_step: "length (workers (step E results a s)) = length (workers s)"
  by (cases a)
     (simp_all add: workers_feeder_step workers_orchestrator_step length_workers_worker_step)

lemma length_workers_run: "length (workers (run E results sched s)) = length (workers s)"
  by (induction sched arbitrary: s) (simp_all add: length_workers_step)

text \<open>
  Claim C9. For a batch of N \<ge> 1 documents the summarizer starts exactly min(N, 5)
  workers, and under every schedule the number of workers stays min(N, 5), which is at
  most 5.
\<close>

theorem worker_count:
  "results \<noteq> [] \<Longrightarrow>
     length (workers (run E results sched (init results notes))) = min (length results) 5 \<and>
     length (workers (run E results sched (init results notes))) \<le> 5"
proof -
  have "length (workers (init results notes)) = numWorkers results"
    by (simp add: init_def length_start_workers)
  then have "length (workers (run E results sched (init results notes))) =
               min (length results) 5"
    by (simp add: length_workers_run numWorkers_def)
  then show ?thesis by simp
qed

theorem worker_count_witness:
  "[''a'', ''b'', ''c'', ''d'', ''e'', ''f'', ''g''] \<noteq> [] \<and>
   length (workers (run env0 [''a'', ''b'', ''c'', ''d'', ''e'', ''f'', ''g'']
                      [Feeder, Worker 6, Worker 0]
                      (init [''a'', ''b'', ''c'', ''d'', ''e'', ''f'', ''g''] []))) = 5"
  using worker_count [of "[''a'', ''b'', ''c'', ''d'', ''e'', ''f'', ''g'']" env0
                         "[Feeder, Worker 6, Worker 0]" "[]"]
  by simp

section \<open>The session: what each loop leaves alone\<close>

lemma processUserInput_frame:
  "processUserInput cs = (b, cs1) \<Longrightarrow>
     researchBrief cs1 = researchBrief cs \<and> researchConversation cs1 = researchConversation cs
     \<and> compressedResearchNotes cs1 = compressedResearchNotes cs"
  by (auto simp: processUserInput_def addUserMessage_def emit_def split: list.splits if_splits)

lemma clarify_body_frame:
  "clarify_body E cs = (b, cs1) \<Longrightarrow>
     researchBrief cs1 = researchBrief cs \<and> researchConversation cs1 = researchConversation cs
     \<and> compressedResearchNotes cs1 = compressedResearchNotes cs"
  by (auto simp: clarify_body_def emit_def Let_def split: prod.splits option.splits)

lemma clarify_loop_frame:
  "researchBrief (clarify_loop E cs) = researchBrief cs \<and>
   researchConversation (clarify_loop E cs) = researchConversation cs \<and>
   compressedResearchNotes (clarify_loop E cs) = compressedResearchNotes cs"
proof (induction E cs rule: clarify_loop.induct)
  case (1 E cs)
  obtain b cs1 where p: "processUserInput cs = (b, cs1)" by (cases "processUserInput cs")
  obtain c cs2 where q: "clarify_body E cs1 = (c, cs2)" by (cases "clarify_body E cs1")
  note f1 = processUserInput_frame [OF p] and f2 = clarify_body_frame [OF q]
  show ?case
  proof (cases "b \<and> c")
    case True
    then have "clarify_loop E cs = clarify_loop E cs2"
      using p q by (subst clarify_loop.simps) simp
    moreover have "researchBrief (clarify_loop E cs2) = researchBrief cs2 \<and>
        researchConversation (clarify_loop E cs2) = researchConversation cs2 \<and>
        compressedResearchNotes (clarify_loop E cs2) = compressedResearchNotes cs2"
      using 1 [of b cs1 c cs2] p q True by simp
    ultimately show ?thesis using f1 f2 by simp
  next
    case False
    then have "clarify_loop E cs = (if b then cs2 else cs1)"
      using p q by (subst clarify_loop.simps) auto
    then show ?thesis using f1 f2 by simp
  qed
qed

lemma search_branch_extends:
  "search_branch E toolCall (ms, ns) = (r, (ms', ns')) \<Longrightarrow> \<exists>x. ms' = ms @ x"
  by (auto simp: search_branch_def split: sum.splits prod.splits outcome.splits option.splits)

lemma reflection_branch_extends:
  "reflection_branch E toolCall (ms, ns) = (r, (ms', ns')) \<Longrightarrow> \<exists>x. ms' = ms @ x"
  by (auto simp: reflection_branch_def split: sum.splits)

lemma toolCalls_loop_extends:
  "toolCalls_loop E calls (ms, ns) = (r, (ms', ns')) \<Longrightarrow> \<exists>x. ms' = ms @ x"
proof (induction calls arbitrary: ms ns)
  case Nil
  then show ?case by simp
next
  case (Cons c calls)
  obtain r1 ms1 ns1 where s1:
    "(if tc_Name c = ''search_tool'' then search_branch E c (ms, ns) else (Returned None, (ms, ns)))
       = (r1, (ms1, ns1))"
    by (metis prod.exhaust)
  then obtain x1 where x1: "ms1 = ms @ x1"
    using search_branch_extends [of E c ms ns r1 ms1 ns1] by (auto split: if_splits)
  obtain r2 ms2 ns2 where s2:
    "(if tc_Name c = ''reflection_tool'' then reflection_branch E c (ms1, ns1)
      else (Returned None, (ms1, ns1))) = (r2, (ms2, ns2))"
    by (metis prod.exhaust)
  then obtain x2 where x2: "ms2 = ms1 @ x2"
    using reflection_branch_extends [of E c ms1 ns1 r2 ms2 ns2] by (auto split: if_splits)
  show ?case
  proof (cases "r1 = Returned None \<and> r2 = Returned None")
    case True
    then have "toolCalls_loop E (c # calls) (ms, ns) = toolCalls_loop E calls (ms2, ns2)"
      using s1 s2 by simp
    then obtain x where "ms' = ms2 @ x" using Cons.IH [of ms2 ns2] Cons.prems by auto
    then show ?thesis using x1 x2 by simp
  next
    case False
    then have "toolCalls_loop E (c # calls) (ms, ns) = (if r1 = Returned None then (r2, (ms2, ns2)) else (r1, (ms1, ns1)))"
      using s1 s2 by (auto split: outcome.splits option.splits)
    then show ?thesis using Cons.prems x1 x2 by (auto split: if_splits)
  qed
qed

lemma WebResearch_Execute_extends:
  "WebResearch_Execute E (ms, ns) = (r, (ms', ns')) \<Longrightarrow> \<exists>x. ms' = ms @ x"
  by (auto simp: WebResearch_Execute_def
           split: sum.splits list.splits if_splits prod.splits outcome.splits option.splits
           dest!: toolCalls_loop_extends)

lemma research_loop_frame:
  "research_loop E fuel cs = (r, cs') \<Longrightarrow>
     researchBrief cs' = researchBrief cs \<and>
     (\<exists>x. researchConversation cs' = researchConversation cs @ x)"
proof (induction fuel arbitrary: cs)
  case 0
  then show ?case by simp
next
  case (Suc fuel)
  obtain r1 ms ns where e:
    "WebResearch_Execute E (researchConversation cs, compressedResearchNotes cs) = (r1, (ms, ns))"
    by (metis prod.exhaust)
  then obtain x where x: "ms = researchConversation cs @ x"
    using WebResearch_Execute_extends by blast
  define cs1 where "cs1 = (emit Execute_webResearch cs)
                       \<lparr>researchConversation := ms, compressedResearchNotes := ns\<rparr>"
  have f: "researchBrief cs1 = researchBrief cs" "researchConversation cs1 = researchConversation cs @ x"
    using x by (simp_all add: cs1_def emit_def)
  show ?case
  proof (cases "\<exists>resp. r1 = Returned (resp, True, None)")
    case True
    then have "research_loop E (Suc fuel) cs = research_loop E fuel cs1"
      using e by (auto simp: cs1_def)
    then have "researchBrief cs' = researchBrief cs1 \<and>
     (\<exists>x. researchConversation cs' = researchConversation cs1 @ x)"
      using Suc.IH [of cs1] Suc.prems by simp
    then show ?thesis using f by auto
  next
    case False
    then have "snd (research_loop E (Suc fuel) cs) = cs1"
      using e by (auto simp: cs1_def Let_def split: outcome.splits)
    then show ?thesis using f Suc.prems by auto
  qed
qed

section \<open>The tool-call loop\<close>

lemma toolCalls_loop_filter:
  "toolCalls_loop E calls st = toolCalls_loop E (filter known_tool calls) st"
proof (induction calls arbitrary: st)
  case Nil
  then show ?case by simp
next
  case (Cons c calls)
  show ?case
  proof (cases "known_tool c")
    case True
    then show ?thesis using Cons.IH
      by (auto simp: known_tool_def split: prod.splits outcome.splits option.splits)
  next
    case False
    then show ?thesis using Cons.IH by (simp add: known_tool_def)
  qed
qed

text \<open>
  Claim C10. A tool invocation whose name is neither \<open>search_tool\<close> nor
  \<open>reflection_tool\<close> is skipped: the loop over the invocations goes on with the
  rest from the same ledger and notes, without an error, so a turn behaves as the turn
  without its unknown invocations; and a turn made of unknown invocations only appends
  nothing but the model's turn and reports continuation.
\<close>

theorem unknown_tool_skipped:
  "(\<not> known_tool toolCall \<longrightarrow>
      toolCalls_loop E (toolCall # rest) st = toolCalls_loop E rest st)
   \<and> toolCalls_loop E calls st = toolCalls_loop E (filter known_tool calls) st
   \<and> (PromptBuilder E ''web_research''
         (emptyTemplateData\<lparr>Date := timeNow E, Messages := messages\<rparr>) = Inr prompt \<and>
       chatCompletion E (BuildConversationHistory prompt messages) = Inr (msg # choices) \<and>
       ToolCalls msg \<noteq> [] \<and> (\<forall>c \<in> set (ToolCalls msg). \<not> known_tool c) \<longrightarrow>
       WebResearch_Execute E (messages, notes) =
         (Returned ([], True, None), (messages @ [msg], notes)))"
proof (intro conjI impI)
  assume "\<not> known_tool toolCall"
  then show "toolCalls_loop E (toolCall # rest) st = toolCalls_loop E rest st"
    by (simp add: known_tool_def)
next
  show "toolCalls_loop E calls st = toolCalls_loop E (filter known_tool calls) st"
    by (rule toolCalls_loop_filter)
next
  assume a: "PromptBuilder E ''web_research''
         (emptyTemplateData\<lparr>Date := timeNow E, Messages := messages\<rparr>) = Inr prompt \<and>
       chatCompletion E (BuildConversationHistory prompt messages) = Inr (msg # choices) \<and>
       ToolCalls msg \<noteq> [] \<and> (\<forall>c \<in> set (ToolCalls msg). \<not> known_tool c)"
  then have "filter known_tool (ToolCalls msg) = []" by simp
  then have "toolCalls_loop E (ToolCalls msg) (messages @ [msg], notes)
               = (Returned None, (messages @ [msg], notes))"
    using toolCalls_loop_filter [of E "ToolCalls msg" "(messages @ [msg], notes)"] by simp
  then show "WebResearch_Execute E (messages, notes) =
         (Returned ([], True, None), (messages @ [msg], notes))"
    using a by (simp add: WebResearch_Execute_def)
qed

theorem unknown_tool_skipped_witness:
  "\<not> known_tool \<lparr>tc_ID = ''call'', tc_Name = ''browse_tool'', tc_Arguments = ''url''\<rparr> \<and>
   ToolCalls unknownTurn \<noteq> [] \<and> filter known_tool (ToolCalls unknownTurn) = [] \<and>
   toolCalls_loop env_unknown
     [\<lparr>tc_ID = ''call'', tc_Name = ''browse_tool'', tc_Arguments = ''url''\<rparr>] ([], []) =
     (Returned None, ([], [])) \<and>
   WebResearch_Execute env_unknown ([], []) = (Returned ([], True, None), ([unknownTurn], []))"
  using unknown_tool_skipped [of "\<lparr>tc_ID = ''call'', tc_Name = ''browse_tool'', tc_Arguments = ''url''\<rparr>"
      env_unknown "[]" "([], [])" "[]" "[]" "[]" unknownTurn "[]" "[]"]
  by (simp add: known_tool_def unknownTurn_def env_unknown_def env0_def PromptBuilder_def
        emptyTemplateData_def BuildConversationHistory_def)

lemma searchCalls_append: "searchCalls (xs @ ys) = searchCalls xs + searchCalls ys"
  by (simp add: searchCalls_def)




section \<open>The clarify loop\<close>

lemma processUserInput_True:
  "processUserInput cs = (True, cs1) \<Longrightarrow>
     stdin cs \<noteq> [] \<and> stdin cs1 = tl (stdin cs) \<and>
     filter (\<lambda>e. e = Print_userPrompt) (events cs1) =
       filter (\<lambda>e. e = Print_userPrompt) (events cs) @ [Print_userPrompt] \<and>
     filter (\<lambda>e. e = Execute_clarifyWithUser) (events cs1) =
       filter (\<lambda>e. e = Execute_clarifyWithUser) (events cs)"
  by (auto simp: processUserInput_def addUserMessage_def emit_def split: list.splits if_splits)

text \<open>
  Claim C7. A successful execution of the clarify workflow appends exactly one assistant
  message to the clarify ledger, the question when the structured result asks for
  clarification and the verification message otherwise, and reports continuation exactly
  when clarification is needed. When the first execution answers that no clarification
  is needed, the clarify loop ends after that round: one line of input has been read, one
  prompt shown and the workflow executed once.
\<close>

theorem clarify_iteration:
  "(ClarifyWithUser_Execute E messages = ((resp, cont, None), messages') \<longrightarrow>
      (\<exists>prompt r.
         PromptBuilder E ''clarify_with_user''
           (emptyTemplateData\<lparr>Date := timeNow E, Messages := messages\<rparr>) = Inr prompt \<and>
         clarifyCompletion E prompt = Inr r \<and>
         resp = (if NeedClarification r then Question r else Verification r) \<and>
         messages' = messages @ [mkMessage RoleAssistant resp] \<and>
         cont = NeedClarification r))
   \<and> (processUserInput cs = (True, cs1) \<and>
        ClarifyWithUser_Execute E (conversation cs1) = ((resp1, False, None), messages1) \<longrightarrow>
        clarify_loop E cs =
          emit (Print_gpt resp1)
            ((emit Execute_clarifyWithUser cs1)\<lparr>conversation := messages1\<rparr>) \<and>
        stdin cs \<noteq> [] \<and> stdin (clarify_loop E cs) = tl (stdin cs) \<and>
        filter (\<lambda>e. e = Print_userPrompt) (events (clarify_loop E cs)) =
          filter (\<lambda>e. e = Print_userPrompt) (events cs) @ [Print_userPrompt] \<and>
        filter (\<lambda>e. e = Execute_clarifyWithUser) (events (clarify_loop E cs)) =
          filter (\<lambda>e. e = Execute_clarifyWithUser) (events cs) @ [Execute_clarifyWithUser])"
proof (intro conjI impI)
  assume "ClarifyWithUser_Execute E messages = ((resp, cont, None), messages')"
  then show "\<exists>prompt r.
         PromptBuilder E ''clarify_with_user''
           (emptyTemplateData\<lparr>Date := timeNow E, Messages := messages\<rparr>) = Inr prompt \<and>
         clarifyCompletion E prompt = Inr r \<and>
         resp = (if NeedClarification r then Question r else Verification r) \<and>
         messages' = messages @ [mkMessage RoleAssistant resp] \<and>
         cont = NeedClarification r"
    by (auto simp: ClarifyWithUser_Execute_def split: sum.splits if_splits)
next
  assume a: "processUserInput cs = (True, cs1) \<and>
        ClarifyWithUser_Execute E (conversation cs1) = ((resp1, False, None), messages1)"
  then have b: "clarify_body E cs1 =
      (False, emit (Print_gpt resp1)
                ((emit Execute_clarifyWithUser cs1)\<lparr>conversation := messages1\<rparr>))"
    by (simp add: clarify_body_def)
  show c: "clarify_loop E cs =
          emit (Print_gpt resp1)
            ((emit Execute_clarifyWithUser cs1)\<lparr>conversation := messages1\<rparr>)"
    using a b by (subst clarify_loop.simps) simp
  note d = processUserInput_True [of cs cs1]
  show "stdin cs \<noteq> []" using a d by simp
  show "stdin (clarify_loop E cs) = tl (stdin cs)"
    using a c d by (simp add: emit_def)
  show "filter (\<lambda>e. e = Print_userPrompt) (events (clarify_loop E cs)) =
          filter (\<lambda>e. e = Print_userPrompt) (events cs) @ [Print_userPrompt]"
    using a c d by (simp add: emit_def)
  show "filter (\<lambda>e. e = Execute_clarifyWithUser) (events (clarify_loop E cs)) =
          filter (\<lambda>e. e = Execute_clarifyWithUser) (events cs) @ [Execute_clarifyWithUser]"
    using a c d by (simp add: emit_def)
qed

theorem clarify_iteration_witness:
  "ClarifyWithUser_Execute env_asks [mkMessage RoleUser ''topic''] =
     ((''which one?'', True, None),
      [mkMessage RoleUser ''topic'', mkMessage RoleAssistant ''which one?'']) \<and>
   ClarifyWithUser_Execute env0 [mkMessage RoleUser ''topic''] =
     ((''ok'', False, None),
      [mkMessage RoleUser ''topic'', mkMessage RoleAssistant ''ok'']) \<and>
   processUserInput (NewChatSession [''topic'', ''more'']) =
     (True, (NewChatSession [''more''])
              \<lparr>conversation := [mkMessage RoleUser ''topic''], events := [Print_userPrompt]\<rparr>) \<and>
   stdin (clarify_loop env0 (NewChatSession [''topic'', ''more''])) = [''more''] \<and>
   events (clarify_loop env0 (NewChatSession [''topic'', ''more''])) =
     [Print_userPrompt, Execute_clarifyWithUser, Print_gpt ''ok'']"
proof -
  have a: "ClarifyWithUser_Execute env_asks [mkMessage RoleUser ''topic''] =
     ((''which one?'', True, None),
      [mkMessage RoleUser ''topic'', mkMessage RoleAssistant ''which one?''])"
    by (simp add: ClarifyWithUser_Execute_def env_asks_def env0_def PromptBuilder_def)
  have b: "ClarifyWithUser_Execute env0 [mkMessage RoleUser ''topic''] =
     ((''ok'', False, None),
      [mkMessage RoleUser ''topic'', mkMessage RoleAssistant ''ok''])"
    by (simp add: ClarifyWithUser_Execute_def env0_def PromptBuilder_def)
  have c: "processUserInput (NewChatSession [''topic'', ''more'']) =
     (True, (NewChatSession [''more''])
              \<lparr>conversation := [mkMessage RoleUser ''topic''], events := [Print_userPrompt]\<rparr>)"
    by (simp add: processUserInput_def addUserMessage_def NewChatSession_def emit_def)
  show ?thesis
    using a b c
      clarify_iteration [of env_asks "[mkMessage RoleUser ''topic'']" "''which one?''" True
        "[mkMessage RoleUser ''topic'', mkMessage RoleAssistant ''which one?'']"
        "NewChatSession [''topic'', ''more'']"
        "(NewChatSession [''more''])
              \<lparr>conversation := [mkMessage RoleUser ''topic''], events := [Print_userPrompt]\<rparr>"
        "''ok''" "[mkMessage RoleUser ''topic'', mkMessage RoleAssistant ''ok'']"]
      clarify_iteration [of env0 "[mkMessage RoleUser ''topic'']" "''ok''" False
        "[mkMessage RoleUser ''topic'', mkMessage RoleAssistant ''ok'']"
        "NewChatSession [''topic'', ''more'']"
        "(NewChatSession [''more''])
              \<lparr>conversation := [mkMessage RoleUser ''topic''], events := [Print_userPrompt]\<rparr>"
        "''ok''" "[mkMessage RoleUser ''topic'', mkMessage RoleAssistant ''ok'']"]
    by (simp add: NewChatSession_def emit_def)
qed

section \<open>The phases of a session\<close>

lemma brief_phase_events:
  "events (snd (brief_phase E cs)) = events cs @ [Execute_researchBriefGeneration]"
  by (simp add: brief_phase_def emit_def Let_def split: prod.splits option.splits)

lemma report_phase_events:
  "\<exists>x. events (snd (report_phase E cs)) = events cs @ x"
  by (simp add: report_phase_def emit_def Let_def split: prod.splits option.splits)

lemma research_loop_events_mono:
  "\<exists>x. events (snd (research_loop E fuel cs)) = events cs @ x"
proof (induction fuel arbitrary: cs)
  case 0
  then show ?case by simp
next
  case (Suc fuel)
  obtain r1 ms ns where e:
    "WebResearch_Execute E (researchConversation cs, compressedResearchNotes cs) = (r1, (ms, ns))"
    by (metis prod.exhaust)
  define cs1 where "cs1 = (emit Execute_webResearch cs)
                       \<lparr>researchConversation := ms, compressedResearchNotes := ns\<rparr>"
  have f: "events cs1 = events cs @ [Execute_webResearch]"
    by (simp add: cs1_def emit_def)
  show ?case
  proof (cases "\<exists>resp. r1 = Returned (resp, True, None)")
    case True
    then have "research_loop E (Suc fuel) cs = research_loop E fuel cs1"
      using e by (auto simp: cs1_def)
    then show ?thesis using Suc.IH [of cs1] f by auto
  next
    case False
    then have "snd (research_loop E (Suc fuel) cs) = cs1"
      using e by (auto simp: cs1_def Let_def split: outcome.splits)
    then show ?thesis using f by auto
  qed
qed

lemma clarify_loop_eof: "stdin cs = [] \<Longrightarrow> clarify_loop E cs = emit Print_userPrompt cs"
  by (subst clarify_loop.simps) (simp add: processUserInput_def)

lemma Run_events:
  "\<exists>x. events (snd (Run E fuel cs)) =
     events (clarify_loop E (emit Print_welcome cs)) @ Execute_researchBriefGeneration # x"
proof -
  let ?c = "clarify_loop E (emit Print_welcome cs)"
  obtain err cs2 where b: "brief_phase E ?c = (err, cs2)" by (metis prod.exhaust)
  have e2: "events cs2 = events ?c @ [Execute_researchBriefGeneration]"
    using brief_phase_events [of E ?c] b by simp
  show ?thesis
  proof (cases err)
    case (Some e)
    then show ?thesis using b e2 by (simp add: Run_def)
  next
    case None
    obtain r cs3 where l: "research_loop E fuel cs2 = (r, cs3)" by (metis prod.exhaust)
    obtain x where x: "events cs3 = events cs2 @ x"
      using research_loop_events_mono [of E fuel cs2] l by auto
    obtain y where y: "events (snd (report_phase E cs3)) = events cs3 @ y"
      using report_phase_events by blast
    show ?thesis
      using None b l e2 x y by (cases r) (auto simp: Run_def split: prod.splits)
  qed
qed

text \<open>
  Claim C5 does not hold of the code. When the input ends at the first prompt the
  clarify loop is left by \<open>break\<close> and \<open>Run\<close> goes on: whatever the collaborators
  answer, the brief workflow is executed next; and when they all succeed, the research
  and report workflows run as well and a report is printed.
\<close>

theorem end_of_input_runs_brief:
  "take 3 (events (snd (Run E fuel (NewChatSession [])))) =
     [Print_welcome, Print_userPrompt, Execute_researchBriefGeneration] \<and>
   fst (Run env0 1 (NewChatSession [])) = Returned None \<and>
   events (snd (Run env0 1 (NewChatSession []))) =
     [Print_welcome, Print_userPrompt, Execute_researchBriefGeneration,
      Execute_webResearch, Execute_researchReportGeneration, Print_gpt ''report'']"
proof (intro conjI)
  have "clarify_loop E (emit Print_welcome (NewChatSession [])) =
          emit Print_userPrompt (emit Print_welcome (NewChatSession []))"
    by (rule clarify_loop_eof) (simp add: emit_def NewChatSession_def)
  then have "events (clarify_loop E (emit Print_welcome (NewChatSession []))) =
          [Print_welcome, Print_userPrompt]"
    by (simp add: emit_def NewChatSession_def)
  then show "take 3 (events (snd (Run E fuel (NewChatSession [])))) =
     [Print_welcome, Print_userPrompt, Execute_researchBriefGeneration]"
    using Run_events [of E fuel "NewChatSession []"] by auto
  show "fst (Run env0 1 (NewChatSession [])) = Returned None" by code_simp
  show "events (snd (Run env0 1 (NewChatSession []))) =
     [Print_welcome, Print_userPrompt, Execute_researchBriefGeneration,
      Execute_webResearch, Execute_researchReportGeneration, Print_gpt ''report'']"
    by code_simp
qed

text \<open>
  Claim C6 as stated fails. The completion service of the research phase fails in the
  first round; \<open>Run\<close> nevertheless executes the report workflow, prints the report and
  returns no error.
\<close>

theorem research_failure_still_reports:
  "fst (WebResearch_Execute env_research_fails ([mkMessage RoleUser ''brief''], [])) =
     Returned ([], False,
       Some (Errorf ''failed to create chat completion'' (Error ''unavailable''))) \<and>
   fst (Run env_research_fails 1 (NewChatSession [''topic''])) = Returned None \<and>
   events (snd (Run env_research_fails 1 (NewChatSession [''topic'']))) =
     [Print_welcome, Print_userPrompt, Execute_clarifyWithUser, Print_gpt ''ok'',
      Execute_researchBriefGeneration, Execute_webResearch,
      Execute_researchReportGeneration, Print_gpt ''report'']"
  by code_simp

text \<open>
  Claim C6, as amended. An error of the brief workflow is fatal: \<open>Run\<close> returns it and
  the session ends with the execution of that workflow. An error in a round of the
  research loop ends the loop, and once the loop has ended the report workflow is run
  on the state the loop left and decides what \<open>Run\<close> returns. An error of the report
  workflow is returned, and nothing is printed after the workflow was executed.
\<close>

theorem fatal_errors:
  "(ResearchBriefGeneration_Execute E (conversation (clarify_loop E (emit Print_welcome cs)))
      = ((resp, cont, Some e), messages) \<longrightarrow>
    Run E fuel cs =
      (Returned (Some (Errorf ''error generating response'' e)),
       (emit Execute_researchBriefGeneration (clarify_loop E (emit Print_welcome cs)))
         \<lparr>conversation := messages\<rparr>))
   \<and> (WebResearch_Execute E (researchConversation csr, compressedResearchNotes csr)
        = (Returned (resp', cont', Some e'), (messages', notes')) \<longrightarrow>
      research_loop E (Suc fuel') csr =
        (Returned (),
         (emit Execute_webResearch csr)
           \<lparr>researchConversation := messages', compressedResearchNotes := notes'\<rparr>))
   \<and> (brief_phase E (clarify_loop E (emit Print_welcome cs)) = (None, cs2) \<and>
       research_loop E fuel cs2 = (Returned u, cs3) \<longrightarrow>
      Run E fuel cs = (Returned (fst (report_phase E cs3)), snd (report_phase E cs3)))
   \<and> (ResearchReportGeneration_Execute E (researchBrief cs4) (compressedResearchNotes cs4)
        = (resp'', cont'', Some e'') \<longrightarrow>
      report_phase E cs4 =
        (Some (Errorf ''error generating response'' e''),
         emit Execute_researchReportGeneration cs4))"
proof (intro conjI impI)
  let ?c = "clarify_loop E (emit Print_welcome cs)"
  assume "ResearchBriefGeneration_Execute E (conversation ?c) = ((resp, cont, Some e), messages)"
  then have "brief_phase E ?c =
      (Some (Errorf ''error generating response'' e),
       (emit Execute_researchBriefGeneration ?c)\<lparr>conversation := messages\<rparr>)"
    by (simp add: brief_phase_def)
  then show "Run E fuel cs =
      (Returned (Some (Errorf ''error generating response'' e)),
       (emit Execute_researchBriefGeneration ?c)\<lparr>conversation := messages\<rparr>)"
    by (simp add: Run_def)
next
  assume "WebResearch_Execute E (researchConversation csr, compressedResearchNotes csr)
        = (Returned (resp', cont', Some e'), (messages', notes'))"
  then show "research_loop E (Suc fuel') csr =
        (Returned (),
         (emit Execute_webResearch csr)
           \<lparr>researchConversation := messages', compressedResearchNotes := notes'\<rparr>)"
    by simp
next
  assume "brief_phase E (clarify_loop E (emit Print_welcome cs)) = (None, cs2) \<and>
       research_loop E fuel cs2 = (Returned u, cs3)"
  then show "Run E fuel cs = (Returned (fst (report_phase E cs3)), snd (report_phase E cs3))"
    by (simp add: Run_def split: prod.splits)
next
  assume "ResearchReportGeneration_Execute E (researchBrief cs4) (compressedResearchNotes cs4)
        = (resp'', cont'', Some e'')"
  then show "report_phase E cs4 =
        (Some (Errorf ''error generating response'' e''),
         emit Execute_researchReportGeneration cs4)"
    by (simp add: report_phase_def)
qed

theorem fatal_errors_witness:
  "ResearchBriefGeneration_Execute env_brief_fails
      (conversation (clarify_loop env_brief_fails (emit Print_welcome (NewChatSession [''topic'']))))
     = (([], False, Some (Errorf ''failed to create chat completion'' (Error ''unavailable''))),
        [mkMessage RoleUser ''topic'', mkMessage RoleAssistant ''ok'']) \<and>
   fst (Run env_brief_fails 1 (NewChatSession [''topic''])) =
     Returned (Some (Errorf ''error generating response''
                (Errorf ''failed to create chat completion'' (Error ''unavailable'')))) \<and>
   events (snd (Run env_brief_fails 1 (NewChatSession [''topic'']))) =
     [Print_welcome, Print_userPrompt, Execute_clarifyWithUser, Print_gpt ''ok'',
      Execute_researchBriefGeneration] \<and>
   WebResearch_Execute env_report_fails
      (researchConversation (briefed env_report_fails),
       compressedResearchNotes (briefed env_report_fails))
     = (Returned ([], False,
          Some (Errorf ''failed to create chat completion'' (Error ''unavailable''))),
        ([mkMessage RoleUser ''brief''], [])) \<and>
   brief_phase env_report_fails
      (clarify_loop env_report_fails (emit Print_welcome (NewChatSession [''topic''])))
     = (None, briefed env_report_fails) \<and>
   research_loop env_report_fails 1 (briefed env_report_fails)
     = (Returned (), researched env_report_fails) \<and>
   ResearchReportGeneration_Execute env_report_fails
      (researchBrief (researched env_report_fails))
      (compressedResearchNotes (researched env_report_fails))
     = ([], False, Some (Errorf ''failed to generate research report'' (Error ''unavailable''))) \<and>
   fst (Run env_report_fails 1 (NewChatSession [''topic''])) =
     Returned (Some (Errorf ''error generating response''
                (Errorf ''failed to generate research report'' (Error ''unavailable'')))) \<and>
   events (snd (Run env_report_fails 1 (NewChatSession [''topic'']))) =
     [Print_welcome, Print_userPrompt, Execute_clarifyWithUser, Print_gpt ''ok'',
      Execute_researchBriefGeneration, Execute_webResearch,
      Execute_researchReportGeneration]"
proof -
  have h1: "ResearchBriefGeneration_Execute env_brief_fails
      (conversation (clarify_loop env_brief_fails (emit Print_welcome (NewChatSession [''topic'']))))
     = (([], False, Some (Errorf ''failed to create chat completion'' (Error ''unavailable''))),
        [mkMessage RoleUser ''topic'', mkMessage RoleAssistant ''ok''])"
    by code_simp
  have h2: "WebResearch_Execute env_report_fails
      (researchConversation (briefed env_report_fails),
       compressedResearchNotes (briefed env_report_fails))
     = (Returned ([], False,
          Some (Errorf ''failed to create chat completion'' (Error ''unavailable''))),
        ([mkMessage RoleUser ''brief''], []))"
    by code_simp
  have h3: "brief_phase env_report_fails
      (clarify_loop env_report_fails (emit Print_welcome (NewChatSession [''topic''])))
     = (None, briefed env_report_fails)"
    by code_simp
  have h4: "research_loop env_report_fails 1 (briefed env_report_fails)
     = (Returned (), researched env_report_fails)"
    by code_simp
  have h5: "ResearchReportGeneration_Execute env_report_fails
      (researchBrief (researched env_report_fails))
      (compressedResearchNotes (researched env_report_fails))
     = ([], False, Some (Errorf ''failed to generate research report'' (Error ''unavailable'')))"
    by code_simp
  have e1: "events (clarify_loop env_brief_fails (emit Print_welcome (NewChatSession [''topic'']))) =
     [Print_welcome, Print_userPrompt, Execute_clarifyWithUser, Print_gpt ''ok'']"
    by code_simp
  have e2: "events (researched env_report_fails) =
     [Print_welcome, Print_userPrompt, Execute_clarifyWithUser, Print_gpt ''ok'',
      Execute_researchBriefGeneration, Execute_webResearch]"
    by code_simp
  note A = fatal_errors [of env_brief_fails "NewChatSession [''topic'']" "[]" False
      "Errorf ''failed to create chat completion'' (Error ''unavailable'')"
      "[mkMessage RoleUser ''topic'', mkMessage RoleAssistant ''ok'']" 1]
  note B = fatal_errors [of env_report_fails "NewChatSession [''topic'']" _ _ _ _ 1
      "briefed env_report_fails" "[]" False
      "Errorf ''failed to create chat completion'' (Error ''unavailable'')"
      "[mkMessage RoleUser ''brief'']" "[]" 0
      "briefed env_report_fails" "()" "researched env_report_fails"
      "researched env_report_fails" "[]" False
      "Errorf ''failed to generate research report'' (Error ''unavailable'')"]
  show ?thesis
    using h1 h2 h3 h4 h5 e1 e2 A B by (simp add: emit_def)
qed

lemma brief_phase_None:
  "brief_phase E cs = (None, cs2) \<Longrightarrow>
     (\<exists>prompt. briefCompletion E prompt = Inr (researchBrief cs2)) \<and>
     researchConversation cs2 = researchConversation cs @ [mkMessage RoleUser (researchBrief cs2)]"
  by (auto simp: brief_phase_def ResearchBriefGeneration_Execute_def emit_def Let_def
           split: prod.splits option.splits sum.splits)

lemma brief_phase_Some:
  "brief_phase E cs = (Some err, cs2) \<Longrightarrow>
     researchBrief cs2 = researchBrief cs \<and> researchConversation cs2 = researchConversation cs"
  by (auto simp: brief_phase_def emit_def Let_def split: prod.splits option.splits)

lemma report_phase_frame:
  "researchBrief (snd (report_phase E cs)) = researchBrief cs \<and>
   researchConversation (snd (report_phase E cs)) = researchConversation cs"
  by (simp add: report_phase_def emit_def Let_def split: prod.splits option.splits)

lemma Run_after_brief:
  assumes "brief_phase E (clarify_loop E (emit Print_welcome cs)) = (None, cs2)"
  shows "researchBrief (snd (Run E fuel cs)) = researchBrief cs2 \<and>
         (\<exists>x. researchConversation (snd (Run E fuel cs)) = researchConversation cs2 @ x)"
proof -
  obtain r cs3 where l: "research_loop E fuel cs2 = (r, cs3)" by (metis prod.exhaust)
  note f = research_loop_frame [OF l]
  show ?thesis
  proof (cases r)
    case (Returned u)
    then have "snd (Run E fuel cs) = snd (report_phase E cs3)"
      using assms l by (simp add: Run_def split: prod.splits)
    then show ?thesis using f report_phase_frame [of E cs3] by simp
  next
    case Panicked
    then have "snd (Run E fuel cs) = cs3" using assms l by (simp add: Run_def)
    then show ?thesis using f by simp
  next
    case Pending
    then have "snd (Run E fuel cs) = cs3" using assms l by (simp add: Run_def)
    then show ?thesis using f by simp
  qed
qed

text \<open>
  Claim C8. The clarify loop leaves the brief and the research ledger alone; the brief
  phase stores the brief the completion produced and appends it to the research ledger
  as a user message; the rounds of the research loop and the report phase never write
  the brief, and the research loop only appends to the ledger. So in a session started
  by \<open>NewChatSession\<close> the research loop starts from a ledger holding just the brief,
  and at the end of \<open>Run\<close> the brief is the one that was stored and the first
  message of the research ledger is still the brief as a user message.
\<close>

theorem brief_set_once:
  "researchBrief (clarify_loop E cs) = researchBrief cs \<and>
   researchConversation (clarify_loop E cs) = researchConversation cs
   \<and> (brief_phase E cs = (None, cs2) \<longrightarrow>
        (\<exists>prompt. briefCompletion E prompt = Inr (researchBrief cs2)) \<and>
        researchConversation cs2 =
          researchConversation cs @ [mkMessage RoleUser (researchBrief cs2)])
   \<and> (research_loop E fuel cs = (r, cs') \<longrightarrow>
        researchBrief cs' = researchBrief cs \<and>
        (\<exists>x. researchConversation cs' = researchConversation cs @ x))
   \<and> researchBrief (snd (report_phase E cs)) = researchBrief cs
   \<and> (brief_phase E (clarify_loop E (emit Print_welcome (NewChatSession input))) = (None, cs0)
        \<longrightarrow>
        researchConversation cs0 = [mkMessage RoleUser (researchBrief cs0)] \<and>
        researchBrief (snd (Run E fuel (NewChatSession input))) = researchBrief cs0 \<and>
        (\<exists>x. researchConversation (snd (Run E fuel (NewChatSession input))) =
               mkMessage RoleUser (researchBrief cs0) # x))"
proof (intro conjI impI)
  show "researchBrief (clarify_loop E cs) = researchBrief cs"
    and "researchConversation (clarify_loop E cs) = researchConversation cs"
    using clarify_loop_frame [of E cs] by simp_all
next
  assume "brief_phase E cs = (None, cs2)"
  then show "\<exists>prompt. briefCompletion E prompt = Inr (researchBrief cs2)"
    and "researchConversation cs2 =
          researchConversation cs @ [mkMessage RoleUser (researchBrief cs2)]"
    using brief_phase_None by blast+
next
  assume "research_loop E fuel cs = (r, cs')"
  then show "researchBrief cs' = researchBrief cs"
    and "\<exists>x. researchConversation cs' = researchConversation cs @ x"
    using research_loop_frame by blast+
next
  show "researchBrief (snd (report_phase E cs)) = researchBrief cs"
    using report_phase_frame by blast
next
  let ?c = "clarify_loop E (emit Print_welcome (NewChatSession input))"
  assume a: "brief_phase E ?c = (None, cs0)"
  have "researchConversation ?c = []"
    using clarify_loop_frame [of E "emit Print_welcome (NewChatSession input)"]
    by (simp add: emit_def NewChatSession_def)
  then show s: "researchConversation cs0 = [mkMessage RoleUser (researchBrief cs0)]"
    using brief_phase_None [OF a] by simp
  show "researchBrief (snd (Run E fuel (NewChatSession input))) = researchBrief cs0"
    using Run_after_brief [OF a] by simp
  show "\<exists>x. researchConversation (snd (Run E fuel (NewChatSession input))) =
               mkMessage RoleUser (researchBrief cs0) # x"
    using Run_after_brief [OF a, of fuel] s by auto
qed

theorem brief_set_once_witness:
  "brief_phase env0 (clarify_loop env0 (emit Print_welcome (NewChatSession [''topic'']))) =
     (None, briefed env0) \<and>
   research_loop env0 1 (briefed env0) = (Returned (), researched env0) \<and>
   researchBrief (briefed env0) = ''brief'' \<and>
   researchConversation (briefed env0) = [mkMessage RoleUser ''brief''] \<and>
   researchBrief (researched env0) = ''brief'' \<and>
   researchBrief (snd (Run env0 1 (NewChatSession [''topic'']))) = ''brief'' \<and>
   researchConversation (snd (Run env0 1 (NewChatSession [''topic'']))) =
     [mkMessage RoleUser ''brief'', mkMessage RoleAssistant ''done'']"
proof -
  have h1: "brief_phase env0 (clarify_loop env0 (emit Print_welcome (NewChatSession [''topic'']))) =
     (None, briefed env0)"
    by code_simp
  have h2: "research_loop env0 1 (briefed env0) = (Returned (), researched env0)"
    by code_simp
  have h3: "researchBrief (briefed env0) = ''brief''" by code_simp
  have h4: "researchConversation (snd (Run env0 1 (NewChatSession [''topic'']))) =
     [mkMessage RoleUser ''brief'', mkMessage RoleAssistant ''done'']" by code_simp
  note A = brief_set_once [of env0 "clarify_loop env0 (emit Print_welcome (NewChatSession [''topic'']))"
      "briefed env0" 1 "Returned ()" "researched env0" "[''topic'']" "briefed env0"]
  note B = brief_set_once [of env0 "briefed env0"
      "briefed env0" 1 "Returned ()" "researched env0" "[''topic'']" "briefed env0"]
  show ?thesis using h1 h2 h3 h4 A B by simp
qed

section \<open>The summarizer: the steps of the goroutines\<close>

text \<open>
  Each step function either leaves the state as it is or takes one of a few shapes.
\<close>

lemma feeder_step_cases [case_names blocked push close]:
  obtains
    (blocked) "feeder_step results s = s"
  | (push) "\<not> workClosed s" "feed_i s < length results" "length (workChan s) < length results"
      "feeder_step results s =
         s\<lparr>workChan := workChan s @ [item results (feed_i s)], feed_i := feed_i s + 1\<rparr>"
  | (close) "\<not> workClosed s" "\<not> feed_i s < length results"
      "feeder_step results s = s\<lparr>workClosed := True\<rparr>"
proof (cases "workClosed s")
  case True
  then have "feeder_step results s = s" by (simp add: feeder_step_def)
  then show thesis by (rule blocked)
next
  case nc: False
  show thesis
  proof (cases "feed_i s < length results")
    case fl: True
    show thesis
    proof (cases "length (workChan s) < length results")
      case True
      then show thesis using nc fl by (intro push) (simp_all add: feeder_step_def item_def)
    next
      case False
      then have "feeder_step results s = s" using nc fl by (simp add: feeder_step_def)
      then show thesis by (rule blocked)
    qed
  next
    case False
    then show thesis using nc by (intro close) (simp_all add: feeder_step_def)
  qed
qed

lemma worker_step_cases [case_names blocked recv exit loop send]:
  obtains
    (blocked) "worker_step E results k s = s"
  | (recv) work q where "k < length (workers s)" "workers s ! k = AtRange"
      "workChan s = work # q"
      "worker_step E results k s =
         s\<lparr>workChan := q, workers := (workers s)[k := InBody work (worker_body E work)]\<rparr>"
  | (exit) "k < length (workers s)" "workers s ! k = AtRange" "workChan s = []" "workClosed s"
      "worker_step E results k s = s\<lparr>workers := (workers s)[k := Exited]\<rparr>"
  | (loop) work where "k < length (workers s)" "workers s ! k = InBody work []"
      "worker_step E results k s = s\<lparr>workers := (workers s)[k := AtRange]\<rparr>"
  | (send) work r rs where "k < length (workers s)" "workers s ! k = InBody work (r # rs)"
      "length (resultChan s) < length results"
      "worker_step E results k s =
         s\<lparr>resultChan := resultChan s @ [r], workers := (workers s)[k := InBody work rs]\<rparr>"
proof (cases "k < length (workers s)")
  case False
  then have "worker_step E results k s = s" by (simp add: worker_step_def)
  then show thesis by (rule blocked)
next
  case kl: True
  show thesis
  proof (cases "workers s ! k")
    case AtRange
    show thesis
    proof (cases "workChan s")
      case Nil
      show thesis
      proof (cases "workClosed s")
        case True
        then show thesis using kl AtRange Nil by (intro exit) (simp_all add: worker_step_def)
      next
        case False
        then have "worker_step E results k s = s"
          using kl AtRange Nil by (simp add: worker_step_def)
        then show thesis by (rule blocked)
      qed
    next
      case (Cons work q)
      then show thesis using kl AtRange by (intro recv) (simp_all add: worker_step_def)
    qed
  next
    case (InBody work p)
    show thesis
    proof (cases p)
      case Nil
      then show thesis using kl InBody by (intro loop) (simp_all add: worker_step_def)
    next
      case (Cons r rs)
      show thesis
      proof (cases "length (resultChan s) < length results")
        case True
        then show thesis using kl InBody Cons by (intro send) (simp_all add: worker_step_def)
      next
        case False
        then have "worker_step E results k s = s"
          using kl InBody Cons by (simp add: worker_step_def)
        then show thesis by (rule blocked)
      qed
    qed
  next
    case Exited
    then have "worker_step E results k s = s" using kl by (simp add: worker_step_def)
    then show thesis by (rule blocked)
  qed
qed

lemma orchestrator_step_cases [case_names blocked recv_ok recv_err panic finish]:
  obtains
    (blocked) "orchestrator_step results s = s"
  | (recv_ok) r q where "ret s = Pending" "recv_i s < length results" "resultChan s = r # q"
      "r_err r = None" "r_index r < length (summarizedResearchNotes s)"
      "orchestrator_step results s =
         s\<lparr>resultChan := q, received := received s @ [r],
           summarizedResearchNotes := (summarizedResearchNotes s)[r_index r := r_summary r],
           recv_i := recv_i s + 1\<rparr>"
  | (recv_err) r q e where "ret s = Pending" "recv_i s < length results" "resultChan s = r # q"
      "r_err r = Some e"
      "orchestrator_step results s =
         s\<lparr>resultChan := q, received := received s @ [r], ret := Returned ([], Some e)\<rparr>"
  | (panic) r q where "ret s = Pending" "recv_i s < length results" "resultChan s = r # q"
      "r_err r = None" "\<not> r_index r < length (summarizedResearchNotes s)"
      "orchestrator_step results s =
         s\<lparr>resultChan := q, received := received s @ [r], ret := Panicked\<rparr>"
  | (finish) "ret s = Pending" "\<not> recv_i s < length results"
      "orchestrator_step results s =
         s\<lparr>compressedNotes := compressedNotes s @ summarizedResearchNotes s,
           ret := Returned (Join (summarizedResearchNotes s) nl, None)\<rparr>"
proof (cases "ret s = Pending")
  case False
  then have "orchestrator_step results s = s"
    by (cases "ret s") (simp_all add: orchestrator_step_def)
  then show thesis by (rule blocked)
next
  case pe: True
  show thesis
  proof (cases "recv_i s < length results")
    case False
    then show thesis using pe by (intro finish) (simp_all add: orchestrator_step_def)
  next
    case rl: True
    show thesis
    proof (cases "resultChan s")
      case Nil
      then have "orchestrator_step results s = s"
        using pe rl by (simp add: orchestrator_step_def)
      then show thesis by (rule blocked)
    next
      case (Cons r q)
      show thesis
      proof (cases "r_err r")
        case (Some e)
        then show thesis
          using pe rl Cons by (intro recv_err) (simp_all add: orchestrator_step_def)
      next
        case None
        show thesis
        proof (cases "r_index r < length (summarizedResearchNotes s)")
          case True
          then show thesis
            using pe rl Cons None by (intro recv_ok) (simp_all add: orchestrator_step_def)
        next
          case False
          then show thesis
            using pe rl Cons None by (intro panic) (simp_all add: orchestrator_step_def)
        qed
      qed
    qed
  qed
qed

section \<open>The summarizer: invariants\<close>

lemma jobs_Nil [simp]: "jobs [] = []"
  by (simp add: jobs_def)

lemma jobs_Cons [simp]: "jobs (w # ws) = job_of w @ jobs ws"
  by (simp add: jobs_def)

lemma jobs_append [simp]: "jobs (a @ b) = jobs a @ jobs b"
  by (simp add: jobs_def)

lemma pend_Nil [simp]: "pend k [] = []"
  by (simp add: pend_def)

lemma pend_Cons [simp]: "pend k (w # ws) = pending_of k w @ pend k ws"
  by (simp add: pend_def)

lemma pend_append [simp]: "pend k (a @ b) = pend k a @ pend k b"
  by (simp add: pend_def)

lemma of_job_append [simp]: "of_job k (a @ b) = of_job k a @ of_job k b"
  by (simp add: of_job_def)

lemma of_job_Nil [simp]: "of_job k [] = []"
  by (simp add: of_job_def)

lemma of_job_Cons: "of_job k (r # rs) = (if r_index r = k then r # of_job k rs else of_job k rs)"
  by (simp add: of_job_def)

lemma pend_no_job: "k \<notin> set (jobs ws) \<Longrightarrow> pend k ws = []"
proof (induction ws)
  case Nil
  then show ?case by simp
next
  case (Cons w ws)
  then show ?case by (cases w) auto
qed

lemma split_at:
  assumes "k < length ws"
  shows "ws = take k ws @ ws ! k # drop (Suc k) ws"
    and "ws[k := x] = take k ws @ x # drop (Suc k) ws"
  using assms by (simp_all add: id_take_nth_drop upd_conv_take_nth_drop)

lemma worker_body_index: "r \<in> set (worker_body E work) \<Longrightarrow> r_index r = w_index work"
  by (auto simp: worker_body_def split: sum.splits prod.splits option.splits)

lemma worker_body_length: "worker_body E work \<noteq> [] \<and> length (worker_body E work) \<le> 2"
  by (auto simp: worker_body_def split: sum.splits prod.splits option.splits)

lemma taken_cong:
  "feed_i s' = feed_i s \<Longrightarrow> workChan s' = workChan s \<Longrightarrow> taken s' = taken s"
  by (simp add: taken_def)

lemma worker_ok_cong:
  "taken s' = taken s \<Longrightarrow> workChan s' = workChan s \<Longrightarrow> workClosed s' = workClosed s \<Longrightarrow>
   worker_ok s' w = worker_ok s w"
  by (cases w) simp_all

lemma feed_inv_cong:
  "feed_i s' = feed_i s \<Longrightarrow> workChan s' = workChan s \<Longrightarrow> workClosed s' = workClosed s \<Longrightarrow>
   feed_inv results s' = feed_inv results s"
  by (simp add: feed_inv_def taken_def)

lemma pool_inv_cong:
  assumes "workers s' = workers s" "sent s' = sent s" "feed_i s' = feed_i s"
    "workChan s' = workChan s" "workClosed s' = workClosed s"
  shows "pool_inv E results s' = pool_inv E results s"
proof -
  have t: "taken s' = taken s" using assms by (simp add: taken_def)
  have "worker_ok s' w = worker_ok s w" for w
    using t assms(4,5) by (rule worker_ok_cong)
  then show ?thesis using assms t by (simp add: pool_inv_def)
qed

lemma recv_facts:
  assumes "feed_inv results s" "workChan s = work # q"
  shows "work = item results (taken s)" "taken s < feed_i s"
    "q = map (item results) [Suc (taken s) ..< feed_i s]"
    "feed_i s - length q = Suc (taken s)"
proof -
  have l: "length (workChan s) \<le> feed_i s" and
    m: "workChan s = map (item results) [taken s ..< feed_i s]"
    using assms(1) by (simp_all add: feed_inv_def)
  show lt: "taken s < feed_i s" using l assms(2) by (simp add: taken_def)
  then have u: "[taken s ..< feed_i s] = taken s # [Suc (taken s) ..< feed_i s]"
    by (rule upt_conv_Cons)
  show "work = item results (taken s)" "q = map (item results) [Suc (taken s) ..< feed_i s]"
    using m u assms(2) by simp_all
  show "feed_i s - length q = Suc (taken s)"
    using l assms(2) by (simp add: taken_def)
qed

lemma jobs_lt:
  "\<forall>w \<in> set ws. worker_ok s w \<Longrightarrow> \<forall>j \<in> set (jobs ws). j < taken s"
proof (induction ws)
  case Nil
  then show ?case by simp
next
  case (Cons w ws)
  then show ?case by (cases w) auto
qed

lemma taken_le: "taken s \<le> feed_i s"
  by (simp add: taken_def)

lemma feed_inv_feeder:
  assumes "feed_inv results s"
  shows "feed_inv results (feeder_step results s)"
proof (cases rule: feeder_step_cases [of results s])
  case blocked
  then show ?thesis using assms by simp
next
  case push
  have "taken (feeder_step results s) = taken s"
    using assms push by (simp add: taken_def feed_inv_def)
  then show ?thesis using assms push by (simp add: feed_inv_def taken_def)
next
  case close
  have "feed_i (feeder_step results s) = feed_i s"
    "workChan (feeder_step results s) = workChan s"
    "taken (feeder_step results s) = taken s"
    using close by (simp_all add: taken_def)
  moreover have "feed_i s = length results" using assms close by (simp add: feed_inv_def)
  ultimately show ?thesis using assms unfolding feed_inv_def by metis
qed

lemma pool_inv_feeder:
  assumes "feed_inv results s" "pool_inv E results s"
  shows "pool_inv E results (feeder_step results s)"
proof (cases rule: feeder_step_cases [of results s])
  case blocked
  then show ?thesis using assms by simp
next
  case push
  have t: "taken (feeder_step results s) = taken s"
    using assms push by (simp add: taken_def feed_inv_def)
  have w: "workers (feeder_step results s) = workers s" "sent (feeder_step results s) = sent s"
    using push by (simp_all add: sent_def)
  have ne: "workChan s \<noteq> [] \<or> \<not> workClosed s" using push by simp
  have ok: "worker_ok (feeder_step results s) x" if "x \<in> set (workers s)" for x
  proof -
    have "worker_ok s x" using assms that by (simp add: pool_inv_def)
    then show ?thesis using t push(1) by (cases x) simp_all
  qed
  show ?thesis
    unfolding pool_inv_def t w using assms(2) ok by (simp add: pool_inv_def)
next
  case close
  have t: "taken (feeder_step results s) = taken s"
    using close by (simp add: taken_def)
  have w: "workers (feeder_step results s) = workers s" "sent (feeder_step results s) = sent s"
    using close by (simp_all add: sent_def)
  have ok: "worker_ok (feeder_step results s) x" if "x \<in> set (workers s)" for x
  proof -
    have "worker_ok s x" using assms that by (simp add: pool_inv_def)
    then show ?thesis using t close by (cases x) simp_all
  qed
  show ?thesis
    unfolding pool_inv_def t w using assms(2) ok by (simp add: pool_inv_def)
qed

lemma feed_inv_worker:
  assumes "feed_inv results s"
  shows "feed_inv results (worker_step E results k s)"
proof (cases rule: worker_step_cases [of E results k s])
  case blocked
  then show ?thesis using assms by simp
next
  case (recv work q)
  note f = recv_facts [OF assms recv(3)]
  have "taken (worker_step E results k s) = Suc (taken s)"
    using recv(4) f(4) by (simp add: taken_def)
  then show ?thesis
    using assms recv(4) f(2,3) by (simp add: feed_inv_def)
next
  case exit
  then show ?thesis using assms feed_inv_cong [of "worker_step E results k s" s results] by simp
next
  case (loop work)
  then show ?thesis using assms feed_inv_cong [of "worker_step E results k s" s results] by simp
next
  case (send work r rs)
  then show ?thesis using assms feed_inv_cong [of "worker_step E results k s" s results] by simp
qed

lemma pool_inv_worker:
  assumes fi: "feed_inv results s" and pi: "pool_inv E results s"
  shows "pool_inv E results (worker_step E results k s)"
proof -
  let ?s' = "worker_step E results k s"
  let ?ws = "workers s"
  let ?A = "take k ?ws" and ?B = "drop (Suc k) ?ws"
  have d: "distinct (jobs ?ws)"
    and ok: "\<And>w. w \<in> set ?ws \<Longrightarrow> worker_ok s w"
    and eq: "\<And>j. of_job j (sent s) @ pend j ?ws =
                (if j < taken s then worker_body E (item results j) else [])"
    and bd: "\<And>r. r \<in> set (sent s) \<Longrightarrow> r_index r < length results"
    using pi by (simp_all add: pool_inv_def)
  show ?thesis
  proof (cases rule: worker_step_cases [of E results k s])
    case blocked
    then show ?thesis using pi by simp
  next
    case (recv work q)
    note f = recv_facts [OF fi recv(3)]
    let ?t = "taken s"
    let ?x = "InBody work (worker_body E work)"
    have sp: "?ws = ?A @ AtRange # ?B" "workers ?s' = ?A @ ?x # ?B"
      using split_at [OF recv(1)] recv(2,4) by simp_all
    have t': "taken ?s' = Suc ?t" using recv(4) f(4) by (simp add: taken_def)
    have se: "sent ?s' = sent s" using recv(4) by (simp add: sent_def)
    have wi: "w_index work = ?t" using f(1) by (simp add: item_def)
    have lt: "\<forall>j \<in> set (jobs ?ws). j < ?t" using ok jobs_lt by blast
    have c1: "workers ?s' \<noteq> []" using sp(2) by simp
    have c2: "distinct (jobs (workers ?s'))"
    proof -
      have "jobs ?ws = jobs ?A @ jobs ?B" by (subst sp(1)) simp
      moreover have "jobs (workers ?s') = jobs ?A @ ?t # jobs ?B"
        by (subst sp(2)) (simp add: wi)
      moreover have "?t \<notin> set (jobs ?ws)" using lt by auto
      ultimately show ?thesis using d by auto
    qed
    have c3: "worker_ok ?s' w" if "w \<in> set (workers ?s')" for w
    proof -
      have "w = ?x \<or> w \<in> set ?ws"
        using that sp by (metis in_set_conv_decomp list.set_intros(2) set_ConsD
            Un_iff set_append)
      then show ?thesis
      proof
        assume "w = ?x"
        then show ?thesis using t' wi worker_body_index [of _ E work] by simp
      next
        assume m: "w \<in> set ?ws"
        then have o: "worker_ok s w" by (rule ok)
        show ?thesis
        proof (cases w)
          case (InBody work' p)
          then show ?thesis using o t' by simp
        next
          case AtRange
          then show ?thesis by simp
        next
          case Exited
          then show ?thesis using o recv(3) by simp
        qed
      qed
    qed
    have c4: "of_job j (sent ?s') @ pend j (workers ?s') =
                (if j < taken ?s' then worker_body E (item results j) else [])" for j
    proof (cases "j = ?t")
      case True
      have "of_job ?t (sent s) @ pend ?t ?ws = []" using eq [of ?t] by simp
      then have z: "of_job ?t (sent s) = []" "pend ?t ?A = []" "pend ?t ?B = []"
        by (simp_all add: arg_cong [OF sp(1), of "pend ?t"])
      have "pend ?t (workers ?s') = worker_body E work"
        by (subst sp(2)) (simp add: z wi)
      then show ?thesis unfolding True using z(1) se t' f(1) by simp
    next
      case False
      have "pend j (workers ?s') = pend j ?A @ pend j ?B"
        by (subst sp(2)) (simp add: wi False [symmetric])
      also have "\<dots> = pend j ?ws"
        by (subst (3) sp(1)) simp
      finally show ?thesis using eq [of j] se t' False by auto
    qed
    show ?thesis
      unfolding pool_inv_def using c1 c2 c3 c4 bd se by simp
  next
    case exit
    have sp: "?ws = ?A @ AtRange # ?B" "workers ?s' = ?A @ Exited # ?B"
      using split_at [OF exit(1)] exit(2,5) by simp_all
    have t': "taken ?s' = taken s" using exit(5) by (simp add: taken_def)
    have se: "sent ?s' = sent s" using exit(5) by (simp add: sent_def)
    have j: "jobs (workers ?s') = jobs ?ws"
      by (subst sp(2), subst (3) sp(1)) simp
    have p: "pend j (workers ?s') = pend j ?ws" for j
      by (subst sp(2), subst (3) sp(1)) simp
    have c3: "worker_ok ?s' w" if "w \<in> set (workers ?s')" for w
    proof -
      have "w = Exited \<or> w \<in> set ?ws"
        using that sp by (metis in_set_conv_decomp list.set_intros(2) set_ConsD
            Un_iff set_append)
      then show ?thesis
      proof
        assume "w = Exited"
        then show ?thesis using exit by simp
      next
        assume "w \<in> set ?ws"
        then have "worker_ok s w" by (rule ok)
        then show ?thesis
          using worker_ok_cong [of ?s' s w] t' exit(5) by simp
      qed
    qed
    show ?thesis
      unfolding pool_inv_def using sp(2) d c3 eq bd se t' j p by simp
  next
    case (loop work)
    have sp: "?ws = ?A @ InBody work [] # ?B" "workers ?s' = ?A @ AtRange # ?B"
      using split_at [OF loop(1)] loop(2,3) by simp_all
    have t': "taken ?s' = taken s" using loop(3) by (simp add: taken_def)
    have se: "sent ?s' = sent s" using loop(3) by (simp add: sent_def)
    have "jobs ?ws = jobs ?A @ w_index work # jobs ?B" by (subst sp(1)) simp
    moreover have "jobs (workers ?s') = jobs ?A @ jobs ?B" by (subst sp(2)) simp
    ultimately have c2: "distinct (jobs (workers ?s'))" using d by simp
    have p: "pend j (workers ?s') = pend j ?ws" for j
      by (subst sp(2), subst (3) sp(1)) simp
    have c3: "worker_ok ?s' w" if "w \<in> set (workers ?s')" for w
    proof -
      have "w = AtRange \<or> w \<in> set ?ws"
        using that sp by (metis in_set_conv_decomp list.set_intros(2) set_ConsD
            Un_iff set_append)
      then show ?thesis
      proof
        assume "w = AtRange"
        then show ?thesis by simp
      next
        assume "w \<in> set ?ws"
        then have "worker_ok s w" by (rule ok)
        then show ?thesis
          using worker_ok_cong [of ?s' s w] t' loop(3) by simp
      qed
    qed
    show ?thesis
      unfolding pool_inv_def using sp(2) c2 c3 eq bd se t' p by simp
  next
    case (send work r rs)
    let ?x = "InBody work rs"
    let ?i = "w_index work"
    have sp: "?ws = ?A @ InBody work (r # rs) # ?B" "workers ?s' = ?A @ ?x # ?B"
      using split_at [OF send(1)] send(2,4) by simp_all
    have t': "taken ?s' = taken s" using send(4) by (simp add: taken_def)
    have se: "sent ?s' = sent s @ [r]" using send(4) by (simp add: sent_def)
    have m: "InBody work (r # rs) \<in> set ?ws" using send(1,2) nth_mem by fastforce
    have o: "?i < taken s" "r_index r = ?i" "\<forall>r' \<in> set rs. r_index r' = ?i"
      using ok [OF m] by simp_all
    have ja: "jobs ?ws = jobs ?A @ ?i # jobs ?B" by (subst sp(1)) simp
    have j: "jobs (workers ?s') = jobs ?ws"
      by (subst sp(2), subst ja) simp
    have ni: "?i \<notin> set (jobs ?A)" "?i \<notin> set (jobs ?B)" using d ja by auto
    have c3: "worker_ok ?s' w" if "w \<in> set (workers ?s')" for w
    proof -
      have "w = ?x \<or> w \<in> set ?ws"
        using that sp by (metis in_set_conv_decomp list.set_intros(2) set_ConsD
            Un_iff set_append)
      then show ?thesis
      proof
        assume "w = ?x"
        then show ?thesis using o t' by simp
      next
        assume "w \<in> set ?ws"
        then have "worker_ok s w" by (rule ok)
        then show ?thesis
          using worker_ok_cong [of ?s' s w] t' send(4) by simp
      qed
    qed
    have c4: "of_job j (sent ?s') @ pend j (workers ?s') =
                (if j < taken ?s' then worker_body E (item results j) else [])" for j
    proof (cases "j = ?i")
      case True
      have pa: "pend ?i ?A = []" "pend ?i ?B = []"
        using ni pend_no_job by blast+
      have "pend ?i ?ws = r # rs" by (subst sp(1)) (simp add: pa)
      moreover have "pend ?i (workers ?s') = rs" by (subst sp(2)) (simp add: pa)
      moreover have "of_job ?i (sent ?s') = of_job ?i (sent s) @ [r]"
        using se o(2) by (simp add: of_job_Cons)
      ultimately show ?thesis unfolding True using eq [of ?i] t' by simp
    next
      case False
      have "pend j (workers ?s') = pend j ?A @ pend j ?B"
        by (subst sp(2)) (simp add: False [symmetric])
      also have "\<dots> = pend j ?ws"
        by (subst (3) sp(1)) (simp add: False [symmetric])
      finally have "pend j (workers ?s') = pend j ?ws" .
      moreover have "of_job j (sent ?s') = of_job j (sent s)"
        using se o(2) False by (simp add: of_job_Cons)
      ultimately show ?thesis using eq [of j] t' by simp
    qed
    have c5: "r_index r' < length results" if "r' \<in> set (sent ?s')" for r'
    proof -
      have "feed_i s \<le> length results" using fi by (simp add: feed_inv_def)
      then have "r_index r < length results" using o(1,2) taken_le [of s] by linarith
      then show ?thesis using that se bd by auto
    qed
    show ?thesis
      unfolding pool_inv_def using sp(2) d j c3 c4 c5 by simp
  qed
qed

lemma orch_inv_feeder:
  "orch_inv results notes s \<Longrightarrow> orch_inv results notes (feeder_step results s)"
  by (cases rule: feeder_step_cases [of results s])
     (simp_all add: orch_inv_def notes_ok_def)

lemma orch_inv_worker:
  "orch_inv results notes s \<Longrightarrow> orch_inv results notes (worker_step E results k s)"
  by (cases rule: worker_step_cases [of E results k s])
     (simp_all add: orch_inv_def notes_ok_def)

lemma feed_inv_orchestrator:
  "feed_inv results s \<Longrightarrow> feed_inv results (orchestrator_step results s)"
  by (cases rule: orchestrator_step_cases [of results s])
     (simp_all add: feed_inv_def taken_def)

lemma pool_inv_orchestrator:
  assumes "pool_inv E results s"
  shows "pool_inv E results (orchestrator_step results s)"
proof -
  have "workers (orchestrator_step results s) = workers s \<and>
        sent (orchestrator_step results s) = sent s \<and>
        feed_i (orchestrator_step results s) = feed_i s \<and>
        workChan (orchestrator_step results s) = workChan s \<and>
        workClosed (orchestrator_step results s) = workClosed s"
    by (cases rule: orchestrator_step_cases [of results s]) (simp_all add: sent_def)
  then show ?thesis using assms pool_inv_cong by blast
qed

lemma orch_inv_orchestrator:
  assumes pi: "pool_inv E results s" and oi: "orch_inv results notes s"
  shows "orch_inv results notes (orchestrator_step results s)"
proof (cases rule: orchestrator_step_cases [of results s])
  case blocked
  then show ?thesis using oi by simp
next
  case (recv_ok r q)
  let ?s' = "orchestrator_step results s"
  have p: "recv_i s = length (received s)" "\<forall>r \<in> set (received s). r_err r = None"
    "notes_ok results s" "compressedNotes s = notes"
    "length (summarizedResearchNotes s) = length results"
    using oi recv_ok(1) by (simp_all add: orch_inv_def)
  have n: "notes_ok results ?s'"
    unfolding notes_ok_def
  proof (intro allI impI)
    fix k assume k: "k < length results"
    show "summarizedResearchNotes ?s' ! k =
          (if of_job k (received ?s') = [] then []
           else r_summary (last (of_job k (received ?s'))))"
    proof (cases "k = r_index r")
      case True
      then show ?thesis using recv_ok(5,6) by (simp add: of_job_Cons)
    next
      case False
      then have "summarizedResearchNotes ?s' ! k = summarizedResearchNotes s ! k"
        "of_job k (received ?s') = of_job k (received s)"
        using recv_ok(6) by (simp_all add: of_job_Cons)
      then show ?thesis using p(3) k by (simp add: notes_ok_def)
    qed
  qed
  have "ret ?s' = Pending" "recv_i ?s' = length (received ?s')"
    "\<forall>r \<in> set (received ?s'). r_err r = None" "compressedNotes ?s' = notes"
    "length (summarizedResearchNotes ?s') = length results"
    "length (received ?s') \<le> length results"
    using p recv_ok(1,2,4) by (simp_all add: recv_ok(6))
  then show ?thesis using n by (simp add: orch_inv_def)
next
  case (recv_err r q e)
  let ?s' = "orchestrator_step results s"
  have p: "recv_i s = length (received s)" "\<forall>r \<in> set (received s). r_err r = None"
    "compressedNotes s = notes" "length (summarizedResearchNotes s) = length results"
    using oi recv_err(1) by (simp_all add: orch_inv_def)
  have "ret ?s' = Returned ([], Some e)" "compressedNotes ?s' = notes"
    "received ?s' = received s @ [r]"
    "length (summarizedResearchNotes ?s') = length results"
    "length (received ?s') \<le> length results"
    using p recv_err(2) by (simp_all add: recv_err(5))
  then show ?thesis using p(2) recv_err(4) by (simp add: orch_inv_def)
next
  case (panic r q)
  have "r \<in> set (sent s)" using panic(3) by (simp add: sent_def)
  then have "r_index r < length results" using pi by (simp add: pool_inv_def)
  moreover have "length (summarizedResearchNotes s) = length results"
    using oi by (simp add: orch_inv_def)
  ultimately show ?thesis using panic(5) by simp
next
  case finish
  let ?s' = "orchestrator_step results s"
  have p: "recv_i s = length (received s)" "\<forall>r \<in> set (received s). r_err r = None"
    "notes_ok results s" "compressedNotes s = notes"
    "length (summarizedResearchNotes s) = length results"
    "length (received s) \<le> length results"
    using oi finish(1) by (simp_all add: orch_inv_def)
  have n: "notes_ok results ?s'"
    using p(3) finish(3) by (simp add: notes_ok_def)
  have "ret ?s' = Returned (Join (summarizedResearchNotes s) nl, None)"
    "compressedNotes ?s' = notes @ summarizedResearchNotes s"
    "received ?s' = received s" "summarizedResearchNotes ?s' = summarizedResearchNotes s"
    using p by (simp_all add: finish(3))
  moreover have "length (received s) = length results" using p(1,6) finish(2) by simp
  ultimately show ?thesis using n p(2,5) by (simp add: orch_inv_def)
qed

lemma invs_step:
  assumes "invs E results notes s"
  shows "invs E results notes (step E results a s)"
proof -
  have i: "feed_inv results s" "pool_inv E results s" "orch_inv results notes s"
    using assms by (simp_all add: invs_def)
  show ?thesis
  proof (cases a)
    case Feeder
    then show ?thesis
      using feed_inv_feeder [OF i(1)] pool_inv_feeder [OF i(1,2)] orch_inv_feeder [OF i(3)]
      by (simp add: invs_def)
  next
    case (Worker k)
    then show ?thesis
      using feed_inv_worker [OF i(1)] pool_inv_worker [OF i(1,2)] orch_inv_worker [OF i(3)]
      by (simp add: invs_def)
  next
    case Orchestrator
    then show ?thesis
      using feed_inv_orchestrator [OF i(1)] pool_inv_orchestrator [OF i(2)]
        orch_inv_orchestrator [OF i(2,3)]
      by (simp add: invs_def)
  qed
qed

lemma invs_run: "invs E results notes s \<Longrightarrow> invs E results notes (run E results sched s)"
  by (induction sched arbitrary: s) (simp_all add: invs_step)

lemma start_workers_replicate: "start_workers i n ws = ws @ replicate (n - i) AtRange"
proof (induction i n ws rule: start_workers.induct)
  case (1 i n ws)
  show ?case
  proof (cases "i < n")
    case True
    then have "n - i = Suc (n - (i + 1))" by simp
    then show ?thesis using 1 True
      by (subst start_workers.simps) (simp add: replicate_app_Cons_same)
  next
    case False
    then show ?thesis by (subst start_workers.simps) simp
  qed
qed

lemma jobs_replicate: "jobs (replicate n AtRange) = []"
  by (induction n) simp_all

lemma pend_replicate: "pend k (replicate n AtRange) = []"
  by (induction n) simp_all

lemma invs_init: "results \<noteq> [] \<Longrightarrow> invs E results notes (init results notes)"
  by (simp add: invs_def feed_inv_def pool_inv_def orch_inv_def notes_ok_def init_def
        taken_def sent_def start_workers_replicate numWorkers_def jobs_replicate
        pend_replicate)

lemma invs_reachable:
  "results \<noteq> [] \<Longrightarrow> invs E results notes (run E results sched (init results notes))"
  by (simp add: invs_init invs_run)

section \<open>The summarizer: what was received when the call returns\<close>

lemma worker_body_ok:
  "\<not> job_failed E (w_result work) \<Longrightarrow>
   worker_body E work =
     [\<lparr>r_index = w_index work, r_summary = job_summary E (w_result work), r_err = None\<rparr>]"
  by (auto simp: job_failed_def job_summary_def worker_body_def
           split: sum.splits prod.splits option.splits)

lemma worker_body_failed:
  "job_failed E (w_result work) \<Longrightarrow>
   \<exists>e rest. worker_body E work = e # rest \<and> r_err e \<noteq> None"
  by (auto simp: job_failed_def worker_body_def
           split: sum.splits prod.splits option.splits)

text \<open>What a list of values without error can be when it starts the sends of a job.\<close>
lemma clean_prefix:
  assumes "p @ suf = worker_body E work" "\<forall>r \<in> set p. r_err r = None"
  shows "length p \<le> 1"
    and "job_failed E (w_result work) \<Longrightarrow> p = []"
    and "p \<noteq> [] \<Longrightarrow>
           p = [\<lparr>r_index = w_index work, r_summary = job_summary E (w_result work),
                 r_err = None\<rparr>]"
proof -
  have f: "p = []" if jf: "job_failed E (w_result work)"
  proof (cases p)
    case Nil
    then show ?thesis .
  next
    case (Cons x xs)
    obtain e rest where b: "worker_body E work = e # rest" "r_err e \<noteq> None"
      using worker_body_failed [OF jf] by blast
    have "x = e" using assms(1) Cons b(1) by simp
    moreover have "r_err x = None" using assms(2) Cons by simp
    ultimately show ?thesis using b(2) by simp
  qed
  have g: "p = [\<lparr>r_index = w_index work, r_summary = job_summary E (w_result work),
                 r_err = None\<rparr>]" if ne: "p \<noteq> []"
  proof -
    have "\<not> job_failed E (w_result work)" using f ne by blast
    then have "p @ suf = [\<lparr>r_index = w_index work,
        r_summary = job_summary E (w_result work), r_err = None\<rparr>]"
      using worker_body_ok [of E work] assms(1) by simp
    then show ?thesis using ne by (cases p) simp_all
  qed
  show "job_failed E (w_result work) \<Longrightarrow> p = []" by (rule f)
  show "p \<noteq> [] \<Longrightarrow>
           p = [\<lparr>r_index = w_index work, r_summary = job_summary E (w_result work),
                 r_err = None\<rparr>]" by (rule g)
  show "length p \<le> 1"
  proof (cases "p = []")
    case True
    then show ?thesis by simp
  next
    case False
    then show ?thesis using g by simp
  qed
qed

lemma length_by_job:
  "\<forall>r \<in> set xs. r_index r < n \<Longrightarrow> length xs = (\<Sum>k<n. length (of_job k xs))"
proof (induction xs)
  case Nil
  then show ?case by simp
next
  case (Cons x xs)
  have "(\<Sum>k<n. length (of_job k (x # xs))) =
        (\<Sum>k<n. (if k = r_index x then 1 else 0) + length (of_job k xs))"
    by (rule sum.cong) (auto simp: of_job_Cons)
  also have "\<dots> = (\<Sum>k<n. (if k = r_index x then 1 else 0)) + (\<Sum>k<n. length (of_job k xs))"
    by (simp add: sum.distrib)
  also have "(\<Sum>k<n. (if k = r_index x then 1 else 0 :: nat)) = 1"
    using Cons.prems by simp
  finally show ?case using Cons by simp
qed

lemma sum_all_one:
  fixes f :: "nat \<Rightarrow> nat"
  assumes "(\<Sum>k<n. f k) = n" "\<forall>k<n. f k \<le> 1" "j < n"
  shows "f j = 1"
proof (rule ccontr)
  assume "f j \<noteq> 1"
  moreover have "f j \<le> 1" using assms(2,3) by simp
  ultimately have z: "f j = 0" by simp
  have "(\<Sum>k<n. f k) \<le> (\<Sum>k<n. if k = j then 0 else 1)"
    by (rule sum_mono) (use assms(2) z in auto)
  also have "\<dots> = (\<Sum>k\<in>{..<n} - {j}. 1)"
    by (rule sum.mono_neutral_cong_right) auto
  also have "\<dots> = n - 1" using assms(3) by simp
  finally show False using assms(1,3) by simp
qed

text \<open>Consequences of the invariants for the values received so far.\<close>
lemma received_of_job:
  assumes "pool_inv E results s"
  shows "\<exists>suf. of_job k (received s) @ suf =
           (if k < taken s then worker_body E (item results k) else [])"
proof -
  have "of_job k (sent s) @ pend k (workers s) =
          (if k < taken s then worker_body E (item results k) else [])"
    using assms by (simp add: pool_inv_def)
  then have "of_job k (received s) @ (of_job k (resultChan s) @ pend k (workers s)) =
          (if k < taken s then worker_body E (item results k) else [])"
    by (simp add: sent_def)
  then show ?thesis by blast
qed

lemma received_clean:
  assumes "pool_inv E results s" "\<forall>r \<in> set (received s). r_err r = None"
  shows "length (of_job k (received s)) \<le> 1"
    and "job_failed E (results ! k) \<Longrightarrow> of_job k (received s) = []"
    and "of_job k (received s) \<noteq> [] \<Longrightarrow>
           of_job k (received s) =
             [\<lparr>r_index = k, r_summary = job_summary E (results ! k), r_err = None\<rparr>]"
proof -
  obtain suf where s: "of_job k (received s) @ suf =
           (if k < taken s then worker_body E (item results k) else [])"
    using received_of_job [OF assms(1)] by blast
  have c: "\<forall>r \<in> set (of_job k (received s)). r_err r = None"
    using assms(2) by (simp add: of_job_def)
  show "length (of_job k (received s)) \<le> 1"
    using s c clean_prefix(1) [of "of_job k (received s)" suf E "item results k"]
    by (cases "k < taken s") simp_all
  show "of_job k (received s) = []" if "job_failed E (results ! k)"
    using that s c clean_prefix(2) [of "of_job k (received s)" suf E "item results k"]
    by (cases "k < taken s") (simp_all add: item_def)
  show "of_job k (received s) =
             [\<lparr>r_index = k, r_summary = job_summary E (results ! k), r_err = None\<rparr>]"
    if "of_job k (received s) \<noteq> []"
    using that s c clean_prefix(3) [of "of_job k (received s)" suf E "item results k"]
    by (cases "k < taken s") (simp_all add: item_def)
qed

lemma received_bound:
  assumes "pool_inv E results s"
  shows "\<forall>r \<in> set (received s). r_index r < length results"
  using assms by (simp add: pool_inv_def sent_def)

lemma returned_ok_notes:
  assumes i: "invs E results notes s" and r: "ret s = Returned (str, None)"
  shows "\<forall>t \<in> set results. \<not> job_failed E t"
    and "summarizedResearchNotes s = map (job_summary E) results"
    and "str = Join (map (job_summary E) results) nl"
    and "compressedNotes s = notes @ map (job_summary E) results"
proof -
  let ?n = "length results"
  have pi: "pool_inv E results s" and oi: "orch_inv results notes s"
    using i by (simp_all add: invs_def)
  have o: "length (received s) = ?n" "\<forall>r \<in> set (received s). r_err r = None"
    "notes_ok results s" "str = Join (summarizedResearchNotes s) nl"
    "compressedNotes s = notes @ summarizedResearchNotes s"
    "length (summarizedResearchNotes s) = ?n"
    using oi r by (simp_all add: orch_inv_def)
  have sum: "(\<Sum>k<?n. length (of_job k (received s))) = ?n"
    using length_by_job [OF received_bound [OF pi]] o(1) by simp
  have one: "length (of_job k (received s)) = 1" if "k < ?n" for k
    using sum_all_one [OF sum _ that] received_clean(1) [OF pi o(2)] by blast
  show nf: "\<forall>t \<in> set results. \<not> job_failed E t"
  proof
    fix t assume "t \<in> set results"
    then obtain k where k: "k < ?n" "t = results ! k" by (metis in_set_conv_nth)
    show "\<not> job_failed E t"
      using one [OF k(1)] received_clean(2) [OF pi o(2), of k] k(2) by auto
  qed
  show n: "summarizedResearchNotes s = map (job_summary E) results"
  proof (rule nth_equalityI)
    show "length (summarizedResearchNotes s) = length (map (job_summary E) results)"
      using o(6) by simp
  next
    fix k assume "k < length (summarizedResearchNotes s)"
    then have k: "k < ?n" using o(6) by simp
    have ne: "of_job k (received s) \<noteq> []" using one [OF k] by auto
    have "of_job k (received s) =
             [\<lparr>r_index = k, r_summary = job_summary E (results ! k), r_err = None\<rparr>]"
      using received_clean(3) [OF pi o(2) ne] .
    then have "summarizedResearchNotes s ! k = job_summary E (results ! k)"
      using o(3) k by (simp add: notes_ok_def)
    then show "summarizedResearchNotes s ! k = map (job_summary E) results ! k"
      using k by simp
  qed
  show "str = Join (map (job_summary E) results) nl" using o(4) n by simp
  show "compressedNotes s = notes @ map (job_summary E) results" using o(5) n by simp
qed

lemma sent_clean:
  assumes pi: "pool_inv E results s" and ok: "\<forall>t \<in> set results. \<not> job_failed E t"
    and m: "r \<in> set (sent s)"
  shows "r_err r = None"
proof -
  let ?k = "r_index r"
  let ?g = "\<lparr>r_index = ?k, r_summary = job_summary E (results ! ?k), r_err = None\<rparr>"
  have k: "?k < length results" using pi m by (simp add: pool_inv_def)
  have e: "of_job ?k (sent s) @ pend ?k (workers s) =
          (if ?k < taken s then worker_body E (item results ?k) else [])"
    using pi by (simp add: pool_inv_def)
  have "r \<in> set (of_job ?k (sent s))" using m by (simp add: of_job_def)
  then have "r \<in> set (of_job ?k (sent s) @ pend ?k (workers s))" by simp
  then have i: "r \<in> set (if ?k < taken s then worker_body E (item results ?k) else [])"
    unfolding e .
  have "?k < taken s"
  proof (rule ccontr)
    assume "\<not> ?k < taken s"
    then show False using i by simp
  qed
  then have j: "r \<in> set (worker_body E (item results ?k))" using i by simp
  have "results ! ?k \<in> set results" using k by simp
  then have "\<not> job_failed E (w_result (item results ?k))"
    using ok by (simp add: item_def)
  then have "worker_body E (item results ?k) = [?g]"
    using worker_body_ok [of E "item results ?k"] by (simp add: item_def)
  then have "r = ?g" using j by simp
  then have "r_err r = r_err ?g" by (rule arg_cong)
  then show ?thesis by simp
qed

lemma returned_err_failed:
  assumes i: "invs E results notes s" and r: "ret s = Returned (str, Some e)"
  shows "\<exists>t \<in> set results. job_failed E t"
proof (rule ccontr)
  assume "\<not> (\<exists>t \<in> set results. job_failed E t)"
  then have ok: "\<forall>t \<in> set results. \<not> job_failed E t" by blast
  have pi: "pool_inv E results s" and oi: "orch_inv results notes s"
    using i by (simp_all add: invs_def)
  have ne: "received s \<noteq> []" and le: "r_err (last (received s)) = Some e"
    using oi r by (simp_all add: orch_inv_def)
  have "last (received s) \<in> set (received s)" using ne by (rule last_in_set)
  then have "last (received s) \<in> set (sent s)" by (simp add: sent_def)
  then have "r_err (last (received s)) = None" by (rule sent_clean [OF pi ok])
  then show False using le by simp
qed

section \<open>The summarizer: progress and termination\<close>

text \<open>
  As long as the call has not returned some goroutine can take a step, and every step
  that is not blocked uses up some of a finite supply: every schedule has a bounded number
  of effective steps, and every schedule can be continued until the call has returned.
\<close>

lemma feeder_enabled:
  assumes "\<not> workClosed s" "feed_inv results s"
  shows "feeder_step results s \<noteq> s"
proof
  assume e: "feeder_step results s = s"
  show False
  proof (cases "feed_i s < length results")
    case True
    then have "length (workChan s) < length results"
      using assms(2) by (simp add: feed_inv_def)
    then have "feed_i (feeder_step results s) = feed_i s + 1"
      using assms(1) True by (simp add: feeder_step_def)
    then show False using e by simp
  next
    case False
    then have "workClosed (feeder_step results s)"
      using assms(1) by (simp add: feeder_step_def)
    then show False using e assms(1) by simp
  qed
qed

lemma orchestrator_enabled:
  assumes "ret s = Pending" "recv_i s < length results \<Longrightarrow> resultChan s \<noteq> []"
  shows "orchestrator_step results s \<noteq> s"
proof
  assume e: "orchestrator_step results s = s"
  show False
  proof (cases rule: orchestrator_step_cases [of results s])
    case blocked
    show False
    proof (cases "recv_i s < length results")
      case True
      then obtain r q where c: "resultChan s = r # q" using assms(2) by (cases "resultChan s") auto
      have "length (received (orchestrator_step results s)) = length (received s) + 1"
        using assms(1) True c
        by (cases "r_err r") (simp_all add: orchestrator_step_def)
      then show False using e by simp
    next
      case False
      then have "ret (orchestrator_step results s) \<noteq> Pending"
        using assms(1) by (simp add: orchestrator_step_def)
      then show False using e assms(1) by simp
    qed
  next
    case (recv_ok r q)
    then have "length (received (orchestrator_step results s)) = length (received s) + 1" by simp
    then show False using e by simp
  next
    case (recv_err r q err)
    then have "length (received (orchestrator_step results s)) = length (received s) + 1" by simp
    then show False using e by simp
  next
    case (panic r q)
    then have "length (received (orchestrator_step results s)) = length (received s) + 1" by simp
    then show False using e by simp
  next
    case finish
    then have "ret (orchestrator_step results s) \<noteq> Pending" by simp
    then show False using e finish(1) by simp
  qed
qed

lemma worker_enabled:
  assumes "k < length (workers s)"
    and "workers s ! k = AtRange \<Longrightarrow> workChan s \<noteq> [] \<or> workClosed s"
    and "\<And>work r rs. workers s ! k = InBody work (r # rs) \<Longrightarrow>
           length (resultChan s) < length results"
    and "workers s ! k \<noteq> Exited"
  shows "worker_step E results k s \<noteq> s"
proof
  assume e: "worker_step E results k s = s"
  show False
  proof (cases "workers s ! k")
    case AtRange
    show False
    proof (cases "workChan s")
      case Nil
      then have "workClosed s" using assms(2) AtRange by simp
      then have "workers (worker_step E results k s) ! k = Exited"
        using assms(1) AtRange Nil by (simp add: worker_step_def)
      then show False using e AtRange by simp
    next
      case (Cons work q)
      then have "workChan (worker_step E results k s) = q"
        using assms(1) AtRange by (simp add: worker_step_def)
      then show False using e Cons by simp
    qed
  next
    case (InBody work p)
    show False
    proof (cases p)
      case Nil
      then have "workers (worker_step E results k s) ! k = AtRange"
        using assms(1) InBody by (simp add: worker_step_def)
      then show False using e InBody by simp
    next
      case (Cons r rs)
      then have "length (resultChan s) < length results" using assms(3) InBody by simp
      then have "workers (worker_step E results k s) ! k = InBody work rs"
        using assms(1) InBody Cons by (simp add: worker_step_def)
      then show False using e InBody Cons by simp
    qed
  next
    case Exited
    then show False using assms(4) by simp
  qed
qed

lemma quiescentD:
  assumes "quiescent E results s"
  shows "feeder_step results s = s" "orchestrator_step results s = s"
    "\<And>k. k < length (workers s) \<Longrightarrow> worker_step E results k s = s"
  using assms by (simp_all add: quiescent_def all_actors_def list_all_iff)

lemma pend_all_exited: "\<forall>w \<in> set ws. w = Exited \<Longrightarrow> pend k ws = []"
  by (induction ws) simp_all

lemma progress:
  assumes i: "invs E results notes s" and q: "quiescent E results s"
  shows "ret s \<noteq> Pending"
proof
  assume pe: "ret s = Pending"
  let ?n = "length results"
  have fi: "feed_inv results s" and pi: "pool_inv E results s"
    and oi: "orch_inv results notes s"
    using i by (simp_all add: invs_def)
  have cl: "workClosed s"
  proof (rule ccontr)
    assume "\<not> workClosed s"
    then have "feeder_step results s \<noteq> s" using fi by (rule feeder_enabled)
    then show False using quiescentD(1) [OF q] by simp
  qed
  then have fn: "feed_i s = ?n" using fi by (simp add: feed_inv_def)
  have o: "recv_i s < ?n \<and> resultChan s = []"
  proof (rule ccontr)
    assume a: "\<not> (recv_i s < ?n \<and> resultChan s = [])"
    have "orchestrator_step results s \<noteq> s"
    proof (rule orchestrator_enabled [OF pe])
      assume "recv_i s < ?n"
      then show "resultChan s \<noteq> []" using a by simp
    qed
    then show False using quiescentD(2) [OF q] by simp
  qed
  have ex: "w = Exited" if m: "w \<in> set (workers s)" for w
  proof (rule ccontr)
    assume ne: "w \<noteq> Exited"
    obtain k where k: "k < length (workers s)" "workers s ! k = w"
      using m by (auto simp: in_set_conv_nth)
    have "worker_step E results k s \<noteq> s"
    proof (rule worker_enabled [OF k(1)])
      show "workChan s \<noteq> [] \<or> workClosed s" using cl by simp
      have "0 < ?n" using o by linarith
      then show "length (resultChan s) < length results" using o by simp
      show "workers s ! k \<noteq> Exited" using k(2) ne by simp
    qed
    then show False using quiescentD(3) [OF q k(1)] by simp
  qed
  have "workers s \<noteq> []" using pi by (simp add: pool_inv_def)
  then obtain w0 where w0: "w0 \<in> set (workers s)" by (cases "workers s") auto
  then have "Exited \<in> set (workers s)" using ex [OF w0] by simp
  moreover have "\<forall>w \<in> set (workers s). worker_ok s w"
    using pi by (simp add: pool_inv_def)
  ultimately have "worker_ok s Exited" by blast
  then have tk: "taken s = ?n" using fn by (simp add: taken_def)
  have se: "sent s = received s" using o by (simp add: sent_def)
  have pz: "pend k (workers s) = []" for k
    by (rule pend_all_exited) (use ex in blast)
  have all: "of_job k (received s) = worker_body E (item results k)" if "k < ?n" for k
  proof -
    have "of_job k (sent s) @ pend k (workers s) =
            (if k < taken s then worker_body E (item results k) else [])"
      using pi by (simp add: pool_inv_def)
    then show ?thesis using pz se tk that by simp
  qed
  have one: "1 \<le> length (worker_body E (item results k))" for k
    using worker_body_length [of E "item results k"]
    by (cases "worker_body E (item results k)") simp_all
  have "length (received s) = (\<Sum>k<?n. length (of_job k (received s)))"
    using length_by_job [OF received_bound [OF pi]] .
  also have "\<dots> = (\<Sum>k<?n. length (worker_body E (item results k)))"
    by (rule sum.cong) (simp_all add: all)
  finally have l: "length (received s) = (\<Sum>k<?n. length (worker_body E (item results k)))" .
  have "(\<Sum>k<?n. 1) \<le> (\<Sum>k<?n. length (worker_body E (item results k)))"
    by (rule sum_mono) (rule one)
  then have "?n \<le> length (received s)" using l by simp
  moreover have "recv_i s = length (received s)" using oi pe by (simp add: orch_inv_def)
  ultimately show False using o by simp
qed

lemma wcost_update:
  assumes "k < length ws"
  shows "sum_list (map wcost (ws[k := x])) + wcost (ws ! k) = sum_list (map wcost ws) + wcost x"
proof -
  have "sum_list (map wcost ws) =
          sum_list (map wcost (take k ws)) + wcost (ws ! k) + sum_list (map wcost (drop (Suc k) ws))"
    by (subst split_at(1) [OF assms]) simp
  moreover have "sum_list (map wcost (ws[k := x])) =
          sum_list (map wcost (take k ws)) + wcost x + sum_list (map wcost (drop (Suc k) ws))"
    by (subst split_at(2) [OF assms]) simp
  ultimately show ?thesis by simp
qed

lemma remaining_feeder:
  assumes "feeder_step results s \<noteq> s"
  shows "remaining results (feeder_step results s) < remaining results s"
proof (cases rule: feeder_step_cases [of results s])
  case blocked
  then show ?thesis using assms by simp
next
  case push
  then show ?thesis by (simp add: remaining_def)
next
  case close
  then show ?thesis by (simp add: remaining_def)
qed

lemma remaining_worker:
  assumes "worker_step E results k s \<noteq> s"
  shows "remaining results (worker_step E results k s) < remaining results s"
proof (cases rule: worker_step_cases [of E results k s])
  case blocked
  then show ?thesis using assms by simp
next
  case (recv work q)
  have "sum_list (map wcost ((workers s)[k := InBody work (worker_body E work)])) + 1 =
        sum_list (map wcost (workers s)) + (length (worker_body E work) + 2)"
    using wcost_update [OF recv(1), of "InBody work (worker_body E work)"] recv(2) by simp
  moreover have "length (worker_body E work) \<le> 2" using worker_body_length by simp
  ultimately show ?thesis using recv(3) by (simp add: remaining_def recv(4))
next
  case exit
  have "sum_list (map wcost ((workers s)[k := Exited])) + 1 = sum_list (map wcost (workers s))"
    using wcost_update [OF exit(1), of Exited] exit(2) by simp
  then show ?thesis by (simp add: remaining_def exit(5))
next
  case (loop work)
  have "sum_list (map wcost ((workers s)[k := AtRange])) + 2 =
        sum_list (map wcost (workers s)) + 1"
    using wcost_update [OF loop(1), of AtRange] loop(2) by simp
  then show ?thesis by (simp add: remaining_def loop(3))
next
  case (send work r rs)
  have "sum_list (map wcost ((workers s)[k := InBody work rs])) + (length rs + 3) =
        sum_list (map wcost (workers s)) + (length rs + 2)"
    using wcost_update [OF send(1), of "InBody work rs"] send(2) by simp
  then show ?thesis by (simp add: remaining_def send(4))
qed

lemma remaining_orchestrator:
  assumes "orchestrator_step results s \<noteq> s"
  shows "remaining results (orchestrator_step results s) < remaining results s"
proof (cases rule: orchestrator_step_cases [of results s])
  case blocked
  then show ?thesis using assms by simp
next
  case (recv_ok r q)
  then show ?thesis by (simp add: remaining_def)
next
  case (recv_err r q e)
  then show ?thesis by (simp add: remaining_def)
next
  case (panic r q)
  then show ?thesis by (simp add: remaining_def)
next
  case finish
  then show ?thesis by (simp add: remaining_def)
qed

lemma remaining_step:
  "step E results a s \<noteq> s \<Longrightarrow> remaining results (step E results a s) < remaining results s"
  by (cases a) (simp_all add: remaining_feeder remaining_worker remaining_orchestrator)

lemma effective_bound:
  "effective E results sched s + remaining results (run E results sched s) \<le> remaining results s"
proof (induction sched arbitrary: s)
  case Nil
  then show ?case by simp
next
  case (Cons a sched)
  show ?case
  proof (cases "step E results a s = s")
    case True
    then show ?thesis using Cons [of s] by simp
  next
    case False
    then have "remaining results (step E results a s) < remaining results s"
      by (rule remaining_step)
    then show ?thesis using Cons [of "step E results a s"] False by simp
  qed
qed

lemma run_append: "run E results (xs @ ys) s = run E results ys (run E results xs s)"
  by (induction xs arbitrary: s) simp_all

lemma not_quiescent_step:
  "\<not> quiescent E results s \<Longrightarrow> \<exists>a. step E results a s \<noteq> s"
  by (auto simp: quiescent_def list_all_iff)

lemma reaches_quiescence: "\<exists>sched. quiescent E results (run E results sched s)"
proof (induction "remaining results s" arbitrary: s rule: less_induct)
  case less
  show ?case
  proof (cases "quiescent E results s")
    case True
    then have "quiescent E results (run E results [] s)" by simp
    then show ?thesis by blast
  next
    case False
    then obtain a where a: "step E results a s \<noteq> s" using not_quiescent_step by blast
    then have "remaining results (step E results a s) < remaining results s"
      by (rule remaining_step)
    then obtain sched where "quiescent E results (run E results sched (step E results a s))"
      using less by blast
    then have "quiescent E results (run E results (a # sched) s)" by simp
    then show ?thesis by blast
  qed
qed

lemma remaining_init: "remaining results (init results notes) \<le> 6 * length results + 7"
  by (simp add: remaining_def init_def start_workers_replicate numWorkers_def sum_list_replicate)

lemma summarize_run:
  "results \<noteq> [] \<Longrightarrow>
   summarizeWebSearchResult E sched results notes =
     (ret (run E results sched (init results notes)),
      compressedNotes (run E results sched (init results notes)))"
  by (simp add: summarizeWebSearchResult_def Let_def)

lemma summarize_unfinished:
  "\<exists>sched'. fst (summarizeWebSearchResult E (sched @ sched') results notes) \<noteq> Pending"
proof (cases "results = []")
  case True
  then show ?thesis by (simp add: summarizeWebSearchResult_def)
next
  case False
  let ?s = "run E results sched (init results notes)"
  obtain sched' where q: "quiescent E results (run E results sched' ?s)"
    using reaches_quiescence by blast
  have "invs E results notes (run E results (sched @ sched') (init results notes))"
    using False by (rule invs_reachable)
  then have "ret (run E results (sched @ sched') (init results notes)) \<noteq> Pending"
    using q progress by (simp add: run_append)
  then show ?thesis using False by (auto simp: summarize_run)
qed

section \<open>The tool-call loop: what a search invocation does\<close>












section \<open>The summarizer: order, atomicity and collection\<close>

text \<open>
  Claim C2. For a non-empty batch on which every summarization job succeeds, under every
  schedule the call either has not returned yet, with the compressed notes untouched, or
  has returned without error the summaries of the documents in the order of the
  documents, joined by newlines, and has appended exactly these summaries, in that
  order, to the compressed notes. It has returned in every quiescent state, every schedule
  can be continued to one in which it has returned, and no schedule has more than
  6 N + 7 effective steps.
\<close>

theorem summaries_in_input_order:
  assumes "results \<noteq> []" and "\<forall>t \<in> set results. \<not> job_failed E t"
  shows "(summarizeWebSearchResult E sched results notes = (Pending, notes) \<or>
          summarizeWebSearchResult E sched results notes =
            (Returned (Join (map (job_summary E) results) nl, None),
             notes @ map (job_summary E) results)) \<and>
         (quiescent E results (run E results sched (init results notes)) \<longrightarrow>
            fst (summarizeWebSearchResult E sched results notes) \<noteq> Pending) \<and>
         (\<exists>sched'. fst (summarizeWebSearchResult E (sched @ sched') results notes) \<noteq> Pending) \<and>
         effective E results sched (init results notes) \<le> 6 * length results + 7"
proof (intro conjI impI)
  let ?s = "run E results sched (init results notes)"
  have i: "invs E results notes ?s" using assms(1) by (rule invs_reachable)
  then have oi: "orch_inv results notes ?s" by (simp add: invs_def)
  show "summarizeWebSearchResult E sched results notes = (Pending, notes) \<or>
          summarizeWebSearchResult E sched results notes =
            (Returned (Join (map (job_summary E) results) nl, None),
             notes @ map (job_summary E) results)"
  proof (cases "ret ?s")
    case (Returned x)
    obtain str err where x: "x = (str, err)" by (cases x)
    show ?thesis
    proof (cases err)
      case None
      then have r: "ret ?s = Returned (str, None)" using Returned x by simp
      show ?thesis
        using returned_ok_notes(3,4) [OF i r] r assms(1) by (simp add: summarize_run)
    next
      case (Some e)
      then have "ret ?s = Returned (str, Some e)" using Returned x by simp
      then show ?thesis using returned_err_failed [OF i] assms(2) by blast
    qed
  next
    case Panicked
    then show ?thesis using oi by (simp add: orch_inv_def)
  next
    case Pending
    then have "compressedNotes ?s = notes" using oi by (simp add: orch_inv_def)
    then show ?thesis using Pending assms(1) by (simp add: summarize_run)
  qed
  show "fst (summarizeWebSearchResult E sched results notes) \<noteq> Pending"
    if "quiescent E results ?s"
    using progress [OF i that] assms(1) by (simp add: summarize_run)
  show "\<exists>sched'. fst (summarizeWebSearchResult E (sched @ sched') results notes) \<noteq> Pending"
    by (rule summarize_unfinished)
  show "effective E results sched (init results notes) \<le> 6 * length results + 7"
    using effective_bound [of E results sched "init results notes"]
      remaining_init [of results "notes"] by linarith
qed

theorem summaries_in_input_order_witness:
  "[''a'', ''b''] \<noteq> [] \<and> \<not> job_failed env0 ''a'' \<and> \<not> job_failed env0 ''b'' \<and>
   map r_index (received (run env0 [''a'', ''b''] sched_reversed (init [''a'', ''b''] [''old''])))
     = [1, 0] \<and>
   summarizeWebSearchResult env0 sched_reversed [''a'', ''b''] [''old''] =
     (Returned (Join [job_summary env0 ''a'', job_summary env0 ''b''] nl, None),
      [''old'', job_summary env0 ''a'', job_summary env0 ''b''])"
proof -
  have ne: "[''a'', ''b''] \<noteq> ([] :: string list)" by simp
  have a: "\<not> job_failed env0 ''a''" and b: "\<not> job_failed env0 ''b''" by code_simp+
  then have ok: "\<forall>t \<in> set [''a'', ''b'']. \<not> job_failed env0 t" by simp
  have o: "map r_index
      (received (run env0 [''a'', ''b''] sched_reversed (init [''a'', ''b''] [''old''])))
     = [1, 0]"
    by code_simp
  have r: "fst (summarizeWebSearchResult env0 sched_reversed [''a'', ''b''] [''old'']) \<noteq> Pending"
    by code_simp
  show ?thesis
    using summaries_in_input_order [OF ne ok, of sched_reversed "[''old'']"] a b o r by auto
qed

text \<open>
  Claim C3. On an empty list of documents the summarizer returns an error and leaves the
  compressed notes as they are. Whenever it returns an error, the compressed notes are
  unchanged. And when some job of a non-empty batch fails, then under every schedule the
  call has not returned yet or has returned an error, in both cases with the compressed
  notes unchanged; it has returned the error in every quiescent state, and every
  schedule can be continued to one in which it has returned.
\<close>

theorem failed_batch_leaves_notes:
  "summarizeWebSearchResult E sched [] notes =
     (Returned ([], Some (ErrorNew ''no results to summarize'')), notes)
   \<and> (summarizeWebSearchResult E sched results notes = (Returned (str, Some e), notes') \<longrightarrow>
        notes' = notes \<and> str = [])
   \<and> (results \<noteq> [] \<and> (\<exists>t \<in> set results. job_failed E t) \<longrightarrow>
        (summarizeWebSearchResult E sched results notes = (Pending, notes) \<or>
         (\<exists>err. summarizeWebSearchResult E sched results notes =
                  (Returned ([], Some err), notes))) \<and>
        (quiescent E results (run E results sched (init results notes)) \<longrightarrow>
           (\<exists>err. summarizeWebSearchResult E sched results notes =
                    (Returned ([], Some err), notes))) \<and>
        (\<exists>sched'. fst (summarizeWebSearchResult E (sched @ sched') results notes) \<noteq> Pending))"
proof (intro conjI impI)
  show "summarizeWebSearchResult E sched [] notes =
     (Returned ([], Some (ErrorNew ''no results to summarize'')), notes)"
    by (simp add: summarizeWebSearchResult_def)
next
  assume a: "summarizeWebSearchResult E sched results notes = (Returned (str, Some e), notes')"
  show "notes' = notes" "str = []"
  proof -
    have "notes' = notes \<and> str = []"
    proof (cases "results = []")
      case True
      then show ?thesis using a by (simp add: summarizeWebSearchResult_def)
    next
      case False
      let ?s = "run E results sched (init results notes)"
      have "orch_inv results notes ?s" using invs_reachable [OF False] by (simp add: invs_def)
      moreover have "ret ?s = Returned (str, Some e)" "compressedNotes ?s = notes'"
        using a False by (simp_all add: summarize_run)
      ultimately show ?thesis by (simp add: orch_inv_def)
    qed
    then show "notes' = notes" "str = []" by simp_all
  qed
next
  assume a: "results \<noteq> [] \<and> (\<exists>t \<in> set results. job_failed E t)"
  let ?s = "run E results sched (init results notes)"
  have ne: "results \<noteq> []" using a by simp
  have i: "invs E results notes ?s" using ne by (rule invs_reachable)
  then have oi: "orch_inv results notes ?s" by (simp add: invs_def)
  have c: "ret ?s = Pending \<and> compressedNotes ?s = notes \<or>
           (\<exists>err. ret ?s = Returned ([], Some err) \<and> compressedNotes ?s = notes)"
  proof (cases "ret ?s")
    case (Returned x)
    obtain str' err where x: "x = (str', err)" by (cases x)
    show ?thesis
    proof (cases err)
      case None
      then have "ret ?s = Returned (str', None)" using Returned x by simp
      then show ?thesis using returned_ok_notes(1) [OF i] a by blast
    next
      case (Some e')
      then have "ret ?s = Returned (str', Some e')" using Returned x by simp
      then show ?thesis using oi by (simp add: orch_inv_def)
    qed
  next
    case Panicked
    then show ?thesis using oi by (simp add: orch_inv_def)
  next
    case Pending
    then show ?thesis using oi by (simp add: orch_inv_def)
  qed
  show "summarizeWebSearchResult E sched results notes = (Pending, notes) \<or>
         (\<exists>err. summarizeWebSearchResult E sched results notes =
                  (Returned ([], Some err), notes))"
    using c ne by (auto simp: summarize_run)
  show "\<exists>err. summarizeWebSearchResult E sched results notes = (Returned ([], Some err), notes)"
    if "quiescent E results ?s"
    using c progress [OF i that] ne by (auto simp: summarize_run)
  show "\<exists>sched'. fst (summarizeWebSearchResult E (sched @ sched') results notes) \<noteq> Pending"
    by (rule summarize_unfinished)
qed

theorem failed_batch_leaves_notes_witness:
  "[''good'', ''bad''] \<noteq> [] \<and> job_failed env_job_fails ''bad'' \<and>
   summarizeWebSearchResult env_job_fails sched_error_second [''good'', ''bad''] [''old''] =
     (Returned ([], Some (Errorf ''failed to summarize'' (Error ''unavailable''))), [''old'']) \<and>
   summarizedResearchNotes
     (run env_job_fails [''good'', ''bad''] sched_error_second (init [''good'', ''bad''] [''old'']))
     = [job_summary env_job_fails ''good'', []]"
proof -
  have b: "job_failed env_job_fails ''bad''" by code_simp
  have r: "summarizeWebSearchResult env_job_fails sched_error_second [''good'', ''bad''] [''old''] =
     (Returned ([], Some (Errorf ''failed to summarize'' (Error ''unavailable''))), [''old''])"
    by code_simp
  have p: "summarizedResearchNotes
     (run env_job_fails [''good'', ''bad''] sched_error_second (init [''good'', ''bad''] [''old'']))
     = [job_summary env_job_fails ''good'', []]"
    by code_simp
  show ?thesis
    using b r p
      failed_batch_leaves_notes [of env_job_fails sched_error_second "[''old'']"
        "[''good'', ''bad'']" "[]" "Errorf ''failed to summarize'' (Error ''unavailable'')"
        "[''old'']"]
    by simp
qed

lemma sent_of_job:
  assumes "pool_inv E results s"
  shows "\<exists>suf. of_job k (sent s) @ suf =
           (if k < taken s then worker_body E (item results k) else [])"
proof -
  have "of_job k (sent s) @ pend k (workers s) =
          (if k < taken s then worker_body E (item results k) else [])"
    using assms by (simp add: pool_inv_def)
  then show ?thesis by blast
qed

lemma sent_of_ok_job:
  assumes "pool_inv E results s" "\<not> job_failed E (results ! k)"
  shows "of_job k (sent s) = [] \<or>
         of_job k (sent s) =
           [\<lparr>r_index = k, r_summary = job_summary E (results ! k), r_err = None\<rparr>]"
proof -
  let ?g = "\<lparr>r_index = k, r_summary = job_summary E (results ! k), r_err = None\<rparr>"
  obtain suf where s: "of_job k (sent s) @ suf =
           (if k < taken s then worker_body E (item results k) else [])"
    using sent_of_job [OF assms(1)] by blast
  show ?thesis
  proof (cases "k < taken s")
    case True
    have "worker_body E (item results k) = [?g]"
      using worker_body_ok [of E "item results k"] assms(2) by (simp add: item_def)
    then have "of_job k (sent s) @ suf = [?g]" using s True by simp
    then show ?thesis by (cases "of_job k (sent s)") simp_all
  next
    case False
    then show ?thesis using s by simp
  qed
qed

lemma sent_of_unbuilt_job:
  assumes "pool_inv E results s"
    "PromptBuilder E ''summarize_research''
       (emptyTemplateData\<lparr>RawResearchNote := results ! k\<rparr>) = Inl err"
  shows "of_job k (sent s) = [] \<or>
         of_job k (sent s) =
           [\<lparr>r_index = k, r_summary = [],
             r_err = Some (Errorf ''failed to build prompt'' err)\<rparr>]"
proof -
  let ?g = "\<lparr>r_index = k, r_summary = [],
             r_err = Some (Errorf ''failed to build prompt'' err)\<rparr>"
  obtain suf where s: "of_job k (sent s) @ suf =
           (if k < taken s then worker_body E (item results k) else [])"
    using sent_of_job [OF assms(1)] by blast
  show ?thesis
  proof (cases "k < taken s")
    case True
    have "worker_body E (item results k) = [?g]"
      using assms(2) by (simp add: worker_body_def item_def)
    then have "of_job k (sent s) @ suf = [?g]" using s True by simp
    then show ?thesis by (cases "of_job k (sent s)") simp_all
  next
    case False
    then show ?thesis using s by simp
  qed
qed

lemma returned_ok_received:
  assumes i: "invs E results notes s" and r: "ret s = Returned (str, None)"
    and k: "k < length results"
  shows "of_job k (received s) =
           [\<lparr>r_index = k, r_summary = job_summary E (results ! k), r_err = None\<rparr>]"
proof -
  let ?n = "length results"
  have pi: "pool_inv E results s" and oi: "orch_inv results notes s"
    using i by (simp_all add: invs_def)
  have o: "length (received s) = ?n" "\<forall>r \<in> set (received s). r_err r = None"
    using oi r by (simp_all add: orch_inv_def)
  have sum: "(\<Sum>k<?n. length (of_job k (received s))) = ?n"
    using length_by_job [OF received_bound [OF pi]] o(1) by simp
  have b: "\<forall>k<?n. length (of_job k (received s)) \<le> 1"
    using received_clean(1) [OF pi o(2)] by blast
  have "length (of_job k (received s)) = 1"
    using sum b k by (rule sum_all_one)
  then have "of_job k (received s) \<noteq> []" by auto
  then show ?thesis by (rule received_clean(3) [OF pi o(2)])
qed

lemma returned_ok_drained:
  assumes i: "invs E results notes s" and r: "ret s = Returned (str, None)"
  shows "resultChan s = []"
proof -
  let ?n = "length results"
  have pi: "pool_inv E results s" and oi: "orch_inv results notes s"
    using i by (simp_all add: invs_def)
  have l: "length (received s) = ?n" using oi r by (simp add: orch_inv_def)
  have nf: "\<forall>t \<in> set results. \<not> job_failed E t" using returned_ok_notes(1) [OF i r] .
  have bd: "\<forall>r \<in> set (sent s). r_index r < ?n" using pi by (simp add: pool_inv_def)
  have "length (of_job k (sent s)) \<le> 1" if "k < ?n" for k
  proof -
    have "\<not> job_failed E (results ! k)" using nf that by simp
    then show ?thesis using sent_of_ok_job [OF pi, of k] by auto
  qed
  then have "(\<Sum>k<?n. length (of_job k (sent s))) \<le> (\<Sum>k<?n. 1)"
    by (intro sum_mono) simp
  then have "length (sent s) \<le> ?n" using length_by_job [OF bd] by simp
  then show ?thesis using l by (simp add: sent_def)
qed

text \<open>
  Claim C4, as amended. In a batch of N jobs (N > 0), at every moment of every
  run, at most one pair has been sent to the result channel for a job that succeeds,
  with its index and its summary, and at most one pair for a job whose prompt cannot be
  built, with its index and the error. When the call returns without error, the collecting loop has
  read exactly N pairs, exactly one for each job, with the summary of that job, and
  nothing is left in the result channel. When all jobs succeed, a run in which no
  goroutine can take a further step has returned without error. When the call returns
  an error, the pair read last carried that error, no pair read before carried one,
  and at most N pairs were read: the loop returns at the first error it reads and does
  not drain the channel.
\<close>

theorem collects_until_first_error:
  "results \<noteq> [] \<longrightarrow>
     (k < length results \<and> \<not> job_failed E (results ! k) \<longrightarrow>
        of_job k (sent (run E results sched (init results notes))) = [] \<or>
        of_job k (sent (run E results sched (init results notes))) =
          [\<lparr>r_index = k, r_summary = job_summary E (results ! k), r_err = None\<rparr>])
     \<and> (k < length results \<and>
         PromptBuilder E ''summarize_research''
           (emptyTemplateData\<lparr>RawResearchNote := results ! k\<rparr>) = Inl err \<longrightarrow>
        of_job k (sent (run E results sched (init results notes))) = [] \<or>
        of_job k (sent (run E results sched (init results notes))) =
          [\<lparr>r_index = k, r_summary = [],
            r_err = Some (Errorf ''failed to build prompt'' err)\<rparr>])
     \<and> (ret (run E results sched (init results notes)) = Returned (str, None) \<longrightarrow>
        length (received (run E results sched (init results notes))) = length results \<and>
        resultChan (run E results sched (init results notes)) = [] \<and>
        (\<forall>j < length results.
           of_job j (received (run E results sched (init results notes))) =
             [\<lparr>r_index = j, r_summary = job_summary E (results ! j), r_err = None\<rparr>]))
     \<and> ((\<forall>t \<in> set results. \<not> job_failed E t) \<and>
         quiescent E results (run E results sched (init results notes)) \<longrightarrow>
        (\<exists>joined.
           ret (run E results sched (init results notes)) = Returned (joined, None)))
     \<and> (ret (run E results sched (init results notes)) = Returned (str, Some e) \<longrightarrow>
        received (run E results sched (init results notes)) \<noteq> [] \<and>
        length (received (run E results sched (init results notes))) \<le> length results \<and>
        r_err (last (received (run E results sched (init results notes)))) = Some e \<and>
        (\<forall>r \<in> set (butlast (received (run E results sched (init results notes)))).
           r_err r = None))"
proof
  let ?S = "run E results sched (init results notes)"
  assume ne: "results \<noteq> []"
  have i: "invs E results notes ?S" using ne by (rule invs_reachable)
  then have pi: "pool_inv E results ?S" and oi: "orch_inv results notes ?S"
    by (simp_all add: invs_def)
  have c1: "k < length results \<and> \<not> job_failed E (results ! k) \<longrightarrow>
        of_job k (sent ?S) = [] \<or>
        of_job k (sent ?S) =
          [\<lparr>r_index = k, r_summary = job_summary E (results ! k), r_err = None\<rparr>]"
    using sent_of_ok_job [OF pi] by blast
  have c2: "k < length results \<and>
         PromptBuilder E ''summarize_research''
           (emptyTemplateData\<lparr>RawResearchNote := results ! k\<rparr>) = Inl err \<longrightarrow>
        of_job k (sent ?S) = [] \<or>
        of_job k (sent ?S) =
          [\<lparr>r_index = k, r_summary = [],
            r_err = Some (Errorf ''failed to build prompt'' err)\<rparr>]"
    using sent_of_unbuilt_job [OF pi] by blast
  have c3: "ret ?S = Returned (str, None) \<longrightarrow>
        length (received ?S) = length results \<and> resultChan ?S = [] \<and>
        (\<forall>j < length results.
           of_job j (received ?S) =
             [\<lparr>r_index = j, r_summary = job_summary E (results ! j), r_err = None\<rparr>])"
  proof
    assume r: "ret ?S = Returned (str, None)"
    have "length (received ?S) = length results" using oi r by (simp add: orch_inv_def)
    moreover have "resultChan ?S = []" using i r by (rule returned_ok_drained)
    moreover have "\<forall>j < length results.
           of_job j (received ?S) =
             [\<lparr>r_index = j, r_summary = job_summary E (results ! j), r_err = None\<rparr>]"
      using returned_ok_received [OF i r] by blast
    ultimately show "length (received ?S) = length results \<and> resultChan ?S = [] \<and>
        (\<forall>j < length results.
           of_job j (received ?S) =
             [\<lparr>r_index = j, r_summary = job_summary E (results ! j), r_err = None\<rparr>])"
      by blast
  qed
  have c4: "(\<forall>t \<in> set results. \<not> job_failed E t) \<and> quiescent E results ?S \<longrightarrow>
        (\<exists>joined. ret ?S = Returned (joined, None))"
  proof
    assume a: "(\<forall>t \<in> set results. \<not> job_failed E t) \<and> quiescent E results ?S"
    then have np: "ret ?S \<noteq> Pending" using progress [OF i] by blast
    show "\<exists>joined. ret ?S = Returned (joined, None)"
    proof (cases "ret ?S")
      case (Returned x)
      obtain joined err' where x: "x = (joined, err')" by (cases x)
      show ?thesis
      proof (cases err')
        case None
        then show ?thesis using Returned x by simp
      next
        case (Some e')
        then have "ret ?S = Returned (joined, Some e')" using Returned x by simp
        then show ?thesis using returned_err_failed [OF i] a by blast
      qed
    next
      case Panicked
      then show ?thesis using oi by (simp add: orch_inv_def)
    next
      case Pending
      then show ?thesis using np by simp
    qed
  qed
  have c5: "ret ?S = Returned (str, Some e) \<longrightarrow>
        received ?S \<noteq> [] \<and> length (received ?S) \<le> length results \<and>
        r_err (last (received ?S)) = Some e \<and>
        (\<forall>r \<in> set (butlast (received ?S)). r_err r = None)"
    using oi by (simp add: orch_inv_def)
  show "(k < length results \<and> \<not> job_failed E (results ! k) \<longrightarrow>
        of_job k (sent ?S) = [] \<or>
        of_job k (sent ?S) =
          [\<lparr>r_index = k, r_summary = job_summary E (results ! k), r_err = None\<rparr>])
     \<and> (k < length results \<and>
         PromptBuilder E ''summarize_research''
           (emptyTemplateData\<lparr>RawResearchNote := results ! k\<rparr>) = Inl err \<longrightarrow>
        of_job k (sent ?S) = [] \<or>
        of_job k (sent ?S) =
          [\<lparr>r_index = k, r_summary = [],
            r_err = Some (Errorf ''failed to build prompt'' err)\<rparr>])
     \<and> (ret ?S = Returned (str, None) \<longrightarrow>
        length (received ?S) = length results \<and> resultChan ?S = [] \<and>
        (\<forall>j < length results.
           of_job j (received ?S) =
             [\<lparr>r_index = j, r_summary = job_summary E (results ! j), r_err = None\<rparr>]))
     \<and> ((\<forall>t \<in> set results. \<not> job_failed E t) \<and> quiescent E results ?S \<longrightarrow>
        (\<exists>joined. ret ?S = Returned (joined, None)))
     \<and> (ret ?S = Returned (str, Some e) \<longrightarrow>
        received ?S \<noteq> [] \<and> length (received ?S) \<le> length results \<and>
        r_err (last (received ?S)) = Some e \<and>
        (\<forall>r \<in> set (butlast (received ?S)). r_err r = None))"
    using c1 c2 c3 c4 c5 by blast
qed

theorem collects_until_first_error_witness:
  "[''a'', ''b''] \<noteq> [] \<and> \<not> job_failed env0 ''a'' \<and> \<not> job_failed env0 ''b'' \<and>
   ret (run env0 [''a'', ''b''] sched_reversed (init [''a'', ''b''] [])) =
     Returned (Join [job_summary env0 ''a'', job_summary env0 ''b''] nl, None) \<and>
   of_job 1 (sent (run env0 [''a'', ''b''] sched_reversed (init [''a'', ''b''] []))) =
     [\<lparr>r_index = 1, r_summary = job_summary env0 ''b'', r_err = None\<rparr>] \<and>
   received (run env0 [''a'', ''b''] sched_reversed (init [''a'', ''b''] [])) =
     [\<lparr>r_index = 1, r_summary = job_summary env0 ''b'', r_err = None\<rparr>,
      \<lparr>r_index = 0, r_summary = job_summary env0 ''a'', r_err = None\<rparr>] \<and>
   resultChan (run env0 [''a'', ''b''] sched_reversed (init [''a'', ''b''] [])) = [] \<and>
   quiescent env0 [''a'', ''b'']
     (run env0 [''a'', ''b''] sched_to_the_end (init [''a'', ''b''] [])) \<and>
   ret (run env0 [''a'', ''b''] sched_to_the_end (init [''a'', ''b''] [])) =
     Returned (Join [job_summary env0 ''a'', job_summary env0 ''b''] nl, None) \<and>
   ret (run env_job_fails [''bad'', ''good''] sched_error_first (init [''bad'', ''good''] [])) =
     Returned ([], Some (Errorf ''failed to summarize'' (Error ''unavailable''))) \<and>
   r_err (last (received
     (run env_job_fails [''bad'', ''good''] sched_error_first (init [''bad'', ''good''] [])))) =
     Some (Errorf ''failed to summarize'' (Error ''unavailable'')) \<and>
   of_job 1 (sent
     (run env_job_fails [''bad'', ''good''] sched_error_first (init [''bad'', ''good''] []))) = [] \<and>
   PromptBuilder env_prompt_fails ''summarize_research''
     (emptyTemplateData\<lparr>RawResearchNote := ''a''\<rparr>) =
     Inl (Errorf ''failed to execute template'' (Error ''missing field'')) \<and>
   of_job 0 (sent
     (run env_prompt_fails [''a''] (scheduler env_prompt_fails []) (init [''a''] []))) =
     [\<lparr>r_index = 0, r_summary = [],
       r_err = Some (Errorf ''failed to build prompt''
                 (Errorf ''failed to execute template'' (Error ''missing field'')))\<rparr>] \<and>
   ret (run env_prompt_fails [''a''] (scheduler env_prompt_fails []) (init [''a''] [])) =
     Returned ([], Some (Errorf ''failed to build prompt''
                 (Errorf ''failed to execute template'' (Error ''missing field''))))"
proof -
  have ne: "[''a'', ''b''] \<noteq> ([] :: string list)" by simp
  have a: "\<not> job_failed env0 ''a''" and b: "\<not> job_failed env0 ''b''" by code_simp+
  have r1: "ret (run env0 [''a'', ''b''] sched_reversed (init [''a'', ''b''] [])) =
     Returned (Join [job_summary env0 ''a'', job_summary env0 ''b''] nl, None)"
    by code_simp
  have s1: "of_job 1 (sent (run env0 [''a'', ''b''] sched_reversed (init [''a'', ''b''] []))) =
     [\<lparr>r_index = 1, r_summary = job_summary env0 ''b'', r_err = None\<rparr>]"
    by code_simp
  have v1: "received (run env0 [''a'', ''b''] sched_reversed (init [''a'', ''b''] [])) =
     [\<lparr>r_index = 1, r_summary = job_summary env0 ''b'', r_err = None\<rparr>,
      \<lparr>r_index = 0, r_summary = job_summary env0 ''a'', r_err = None\<rparr>]"
    by code_simp
  have q: "quiescent env0 [''a'', ''b'']
     (run env0 [''a'', ''b''] sched_to_the_end (init [''a'', ''b''] []))"
    by code_simp
  have r2: "ret (run env_job_fails [''bad'', ''good''] sched_error_first
                  (init [''bad'', ''good''] [])) =
     Returned ([], Some (Errorf ''failed to summarize'' (Error ''unavailable'')))"
    by code_simp
  have s2: "of_job 1 (sent
     (run env_job_fails [''bad'', ''good''] sched_error_first (init [''bad'', ''good''] []))) = []"
    by code_simp
  have p3: "PromptBuilder env_prompt_fails ''summarize_research''
     (emptyTemplateData\<lparr>RawResearchNote := ''a''\<rparr>) =
     Inl (Errorf ''failed to execute template'' (Error ''missing field''))"
    by code_simp
  have r3: "ret (run env_prompt_fails [''a''] (scheduler env_prompt_fails []) (init [''a''] [])) =
     Returned ([], Some (Errorf ''failed to build prompt''
                 (Errorf ''failed to execute template'' (Error ''missing field''))))"
    by code_simp
  have s3: "of_job 0 (sent
     (run env_prompt_fails [''a''] (scheduler env_prompt_fails []) (init [''a''] []))) \<noteq> []"
    by code_simp
  note A = collects_until_first_error [of "[''a'', ''b'']" 1 env0 sched_reversed "[]" _
      "Join [job_summary env0 ''a'', job_summary env0 ''b''] nl"
      "Errorf ''failed to summarize'' (Error ''unavailable'')"]
  note B = collects_until_first_error [of "[''bad'', ''good'']" 1 env_job_fails
      sched_error_first "[]" _ "[]"
      "Errorf ''failed to summarize'' (Error ''unavailable'')"]
  note C = collects_until_first_error [of "[''a'', ''b'']" 1 env0 sched_to_the_end "[]" _
      "[]" "Errorf ''failed to summarize'' (Error ''unavailable'')"]
  note D = collects_until_first_error [of "[''a'']" 0 env_prompt_fails
      "scheduler env_prompt_fails []" "[]"
      "Errorf ''failed to execute template'' (Error ''missing field'')" "[]"
      "Errorf ''failed to build prompt''
         (Errorf ''failed to execute template'' (Error ''missing field''))"]
  have c: "ret (run env0 [''a'', ''b''] sched_to_the_end (init [''a'', ''b''] [])) =
     Returned (Join [job_summary env0 ''a'', job_summary env0 ''b''] nl, None)"
    by code_simp
  have d: "of_job 0 (sent
     (run env_prompt_fails [''a''] (scheduler env_prompt_fails []) (init [''a''] []))) =
     [\<lparr>r_index = 0, r_summary = [],
       r_err = Some (Errorf ''failed to build prompt''
                 (Errorf ''failed to execute template'' (Error ''missing field'')))\<rparr>]"
    using D p3 s3 by simp
  show ?thesis using ne a b r1 s1 v1 q c r2 s2 p3 d r3 A B C by simp
qed

text \<open>
  Claim C4 as stated fails. In a batch of two documents the completion for the first
  fails: the worker sends two pairs for that job, and the collecting loop returns the
  error after having read one pair, not two, leaving a pair in the result channel.
  In a batch of three documents of which the first two fail, the call has returned the
  error after one read, the result channel is full, no goroutine can take a step, and
  the third job, which succeeds, has sent nothing.
\<close>

theorem batch_returns_before_draining:
  "ret (run env_job_fails [''bad'', ''good''] sched_error_first (init [''bad'', ''good''] [])) =
     Returned ([], Some (Errorf ''failed to summarize'' (Error ''unavailable''))) \<and>
   length (received
     (run env_job_fails [''bad'', ''good''] sched_error_first (init [''bad'', ''good''] []))) = 1 \<and>
   length (of_job 0 (sent
     (run env_job_fails [''bad'', ''good''] sched_error_first (init [''bad'', ''good''] [])))) = 2 \<and>
   length (resultChan
     (run env_job_fails [''bad'', ''good''] sched_error_first (init [''bad'', ''good''] []))) = 1 \<and>
   quiescent env_job_fails [''bad'', ''bad'', ''good'']
     (run env_job_fails [''bad'', ''bad'', ''good''] sched_blocked
        (init [''bad'', ''bad'', ''good''] [])) \<and>
   \<not> job_failed env_job_fails ''good'' \<and>
   of_job 2 (sent
     (run env_job_fails [''bad'', ''bad'', ''good''] sched_blocked
        (init [''bad'', ''bad'', ''good''] []))) = [] \<and>
   length (received
     (run env_job_fails [''bad'', ''bad'', ''good''] sched_blocked
        (init [''bad'', ''bad'', ''good''] []))) = 1"
  by code_simp

end
